theory Spec2Isabelle
  imports Main "HOL-Library.Multiset"
begin

section \<open>Strings\<close>

text \<open>
  JavaScript strings are modelled as \<^typ>\<open>string\<close>: one \<^typ>\<open>char\<close> per code unit,
  so the model covers texts whose code units are below 256. \<open>length\<close>, \<open>take\<close>
  and \<open>drop\<close> are \<open>.length\<close> and \<open>.slice\<close>.
\<close>

definition newline :: char where
  "newline = CHR 0x0A"

definition isNewline :: "char \<Rightarrow> bool" where
  "isNewline c = (c = newline)"

text \<open>The white space that \<open>String.prototype.trim\<close> removes, among the code units below 256.\<close>

definition isWhitespace :: "char \<Rightarrow> bool" where
  "isWhitespace c = (c \<in> set [CHR 0x09, CHR 0x0A, CHR 0x0B, CHR 0x0C, CHR 0x0D, CHR 0x20, CHR 0xA0])"

definition trim :: "string \<Rightarrow> string" where
  "trim s = rev (dropWhile isWhitespace (rev (dropWhile isWhitespace s)))"

text \<open>\<open>\d\<close> of a JavaScript regular expression.\<close>

definition isDigit :: "char \<Rightarrow> bool" where
  "isDigit c = (c \<in> set ''0123456789'')"

definition isAlnum :: "char \<Rightarrow> bool" where
  "isAlnum c = (c \<in> set ''0123456789abcdefghijklmnopqrstuvwxyzABCDEFGHIJKLMNOPQRSTUVWXYZ'')"

text \<open>\<open>s.startsWith(p)\<close>.\<close>

definition startsWith :: "string \<Rightarrow> string \<Rightarrow> bool" where
  "startsWith s p = (take (length p) s = p)"

text \<open>Index of the first element satisfying \<open>P\<close>: \<open>indexOf\<close>, and \<open>match(...).index\<close>
  for a one-character class.\<close>

fun findIndex :: "('a \<Rightarrow> bool) \<Rightarrow> 'a list \<Rightarrow> nat option" where
  "findIndex P [] = None"
| "findIndex P (x # xs) =
     (if P x then Some 0 else (case findIndex P xs of None \<Rightarrow> None | Some i \<Rightarrow> Some (Suc i)))"

text \<open>\<open>String(n)\<close> for a natural number.\<close>

definition digitChar :: "nat \<Rightarrow> char" where
  "digitChar d = ''0123456789'' ! d"

function showNat :: "nat \<Rightarrow> string" where
  "showNat n = (if n < 10 then [digitChar n] else showNat (n div 10) @ [digitChar (n mod 10)])"
  by pat_completeness auto
termination
  by (relation "measure id") auto

declare showNat.simps [simp del]

text \<open>\<open>Array.from(new Set(xs))\<close>: duplicates removed, first occurrences kept in order.\<close>

fun uniqAcc :: "'a list \<Rightarrow> 'a list \<Rightarrow> 'a list" where
  "uniqAcc seen [] = seen"
| "uniqAcc seen (x # xs) = (if x \<in> set seen then uniqAcc seen xs else uniqAcc (seen @ [x]) xs)"

definition uniq :: "'a list \<Rightarrow> 'a list" where
  "uniq xs = uniqAcc [] xs"

section \<open>Citation offsets and footnotes (structure-compendium-topics.js)\<close>

text \<open>The value of \<open>ins.atChar\<close>: an integer, or anything that \<open>Number.isInteger\<close> rejects.\<close>

datatype jsnum = JInt int | JNotInteger

record citationInsert =
  atChar :: jsnum
  sources :: "string list"

record entry =
  entryId :: string
  etype :: "string option"
  etext :: string
  citationInserts :: "citationInsert list"

text \<open>An insert after the \<open>map\<close> and \<open>filter\<close> of lines 485-492: an integer offset and
  the trimmed, non-empty message ids.\<close>

record validInsert =
  vAtChar :: int
  messageIds :: "string list"

definition isTerminator :: "char \<Rightarrow> bool" where
  "isTerminator c = (c \<in> set ''.!?'')"

definition isCloser :: "char \<Rightarrow> bool" where
  "isCloser c = (c \<in> set [CHR 0x22, CHR 0x27, CHR '')'', CHR '']''])"

text \<open>\<open>while (idx < n && /["')\]]/.test(text[idx])) idx++\<close>.\<close>

function skipClosers :: "string \<Rightarrow> nat \<Rightarrow> nat" where
  "skipClosers txt idx =
     (if idx < length txt \<and> isCloser (txt ! idx) then skipClosers txt (idx + 1) else idx)"
  by pat_completeness auto
termination
  by (relation "measure (\<lambda>(txt, idx). length txt - idx)") auto

declare skipClosers.simps [simp del]

definition moveToSentenceEnd :: "string \<Rightarrow> int \<Rightarrow> nat" where
  "moveToSentenceEnd txt at =
     (let n = length txt;
          start = nat (max 0 (min (int n) at))
      in if start \<ge> n then n
         else
           (let tail = drop start txt
            in case findIndex isTerminator tail of
                 None \<Rightarrow>
                   (case findIndex isNewline tail of
                      None \<Rightarrow> n
                    | Some nl \<Rightarrow> start + nl)
               | Some mi \<Rightarrow> skipClosers txt (start + mi + 1)))"

text \<open>Lines 485-492: the inserts that are rendered.\<close>

definition cleanMessageIds :: "string list \<Rightarrow> string list" where
  "cleanMessageIds srcs = filter (\<lambda>s. s \<noteq> []) (map trim srcs)"

text \<open>\<open>Number.isInteger(at) && at >= 0 && at <= baseText.length\<close>.\<close>

definition validOffset :: "string \<Rightarrow> jsnum \<Rightarrow> bool" where
  "validOffset baseText v =
     (case v of JInt a \<Rightarrow> a \<ge> 0 \<and> a \<le> int (length baseText) | JNotInteger \<Rightarrow> False)"

fun validInserts :: "string \<Rightarrow> citationInsert list \<Rightarrow> validInsert list" where
  "validInserts baseText [] = []"
| "validInserts baseText (ins # rest) =
     (case atChar ins of
        JInt a \<Rightarrow>
          (if validOffset baseText (JInt a)
           then \<lparr>vAtChar = a, messageIds = cleanMessageIds (sources ins)\<rparr> # validInserts baseText rest
           else validInserts baseText rest)
      | JNotInteger \<Rightarrow> validInserts baseText rest)"

text \<open>The \<open>Map\<close> of lines 519-524, in insertion order of its keys.\<close>

fun groupsPush :: "(nat \<times> 'a list) list \<Rightarrow> nat \<Rightarrow> 'a \<Rightarrow> (nat \<times> 'a list) list" where
  "groupsPush [] k v = [(k, [v])]"
| "groupsPush ((k', vs) # g) k v =
     (if k' = k then (k', vs @ [v]) # g else (k', vs) # groupsPush g k v)"

text \<open>The key under which line 521 files a request: its final snapped offset.\<close>

definition snapOf :: "string \<Rightarrow> validInsert \<Rightarrow> nat" where
  "snapOf baseText ins = moveToSentenceEnd baseText (vAtChar ins)"

fun groupInserts :: "string \<Rightarrow> (nat \<times> validInsert list) list \<Rightarrow> validInsert list
    \<Rightarrow> (nat \<times> validInsert list) list" where
  "groupInserts baseText groups [] = groups"
| "groupInserts baseText groups (ins # rest) =
     groupInserts baseText (groupsPush groups (snapOf baseText ins) ins) rest"

text \<open>\<open>groups.get(at) || []\<close>.\<close>

definition groupsGet :: "(nat \<times> 'a list) list \<Rightarrow> nat \<Rightarrow> 'a list" where
  "groupsGet groups at = (case map_of groups at of None \<Rightarrow> [] | Some l \<Rightarrow> l)"

text \<open>
  The state of the numbering loop of lines 527-543. \<open>assigned\<close> is a ghost trace that
  the source does not keep: it records, at each \<open>const n = refNumber++\<close>, the number
  \<open>n\<close>, the snapped offset of the group and the insert that received the number.
\<close>

record footnoteState =
  footnotes :: "string \<rightharpoonup> string list"
  insertMarkers :: "(nat \<times> string) list"
  refNumber :: nat
  assigned :: "(nat \<times> nat \<times> validInsert) list"

definition formatMarker :: "nat list \<Rightarrow> string" where
  "formatMarker nums = concat (map (\<lambda>n. ''['' @ showNat n @ '']'') nums)"

text \<open>The inner loop over one group: returns \<open>nums\<close> and the updated state.\<close>

fun numberGroup :: "nat \<Rightarrow> validInsert list \<Rightarrow> nat list \<Rightarrow> footnoteState
    \<Rightarrow> nat list \<times> footnoteState" where
  "numberGroup at [] nums st = (nums, st)"
| "numberGroup at (ins # rest) nums st =
     (let n = refNumber st
      in numberGroup at rest (nums @ [n])
           (st\<lparr>refNumber := n + 1,
               footnotes := (footnotes st)(showNat n \<mapsto> uniq (messageIds ins)),
               assigned := assigned st @ [(n, at, ins)]\<rparr>))"

fun numberAll :: "(nat \<times> validInsert list) list \<Rightarrow> nat list \<Rightarrow> footnoteState \<Rightarrow> footnoteState" where
  "numberAll groups [] st = st"
| "numberAll groups (at # rest) st =
     (case numberGroup at (groupsGet groups at) [] st of
        (nums, st') \<Rightarrow>
          numberAll groups rest (st'\<lparr>insertMarkers := insertMarkers st' @ [(at, formatMarker nums)]\<rparr>))"

definition initialFootnoteState :: footnoteState where
  "initialFootnoteState = \<lparr>footnotes = Map.empty, insertMarkers = [], refNumber = 1, assigned = []\<rparr>"

definition numberEntry :: "string \<Rightarrow> validInsert list \<Rightarrow> footnoteState" where
  "numberEntry baseText inserts =
     (let groups = groupInserts baseText [] inserts;
          atChars = sort (map fst groups)
      in numberAll groups atChars initialFootnoteState)"

text \<open>Lines 545-550: the markers are spliced in from the last to the first.\<close>

fun insertFromEnd :: "(nat \<times> string) list \<Rightarrow> string \<Rightarrow> string" where
  "insertFromEnd [] textWith = textWith"
| "insertFromEnd ((at, marker) # later) textWith =
     (let t = insertFromEnd later textWith in take at t @ marker @ drop at t)"

record renderedEntry =
  rEntryId :: string
  rType :: string
  rText :: string
  rFootnotes :: "string \<rightharpoonup> string list"

definition applyWikipediaFootnotes :: "entry \<Rightarrow> renderedEntry" where
  "applyWikipediaFootnotes e =
     (let baseText = etext e;
          inserts = validInserts baseText (citationInserts e);
          st = numberEntry baseText inserts
      in \<lparr>rEntryId = entryId e,
          rType = (case etype e of None \<Rightarrow> ''other'' | Some t \<Rightarrow> t),
          rText = insertFromEnd (insertMarkers st) baseText,
          rFootnotes = footnotes st\<rparr>)"

section \<open>Insertion operations (the compendium builder, unnamed/part_000)\<close>

text \<open>
  A message of the block source. Optional fields are \<open>None\<close> when absent or null;
  \<open>truthy\<close> is JavaScript's truth test on an optional string.
\<close>

record message =
  msgId :: string
  timestamp :: "string option"
  author :: "string option"
  content :: string
  replyTo :: "string option"

type_synonym msgIndex = "string \<rightharpoonup> message"

definition truthy :: "string option \<Rightarrow> bool" where
  "truthy v = (case v of None \<Rightarrow> False | Some s \<Rightarrow> s \<noteq> [])"

text \<open>\<open>ts.split('T')[0]\<close>.\<close>

definition dateOf :: "string \<Rightarrow> string" where
  "dateOf ts = takeWhile (\<lambda>c. c \<noteq> CHR ''T'') ts"

definition dquote :: string where
  "dquote = [CHR 0x22]"

definition formatMessageBlock :: "message \<Rightarrow> msgIndex \<Rightarrow> string" where
  "formatMessageBlock msg msgIndex =
     (let dateStr = (case timestamp msg of
                       None \<Rightarrow> ''UNKNOWN-DATE''
                     | Some ts \<Rightarrow> if ts \<noteq> [] then dateOf ts else ''UNKNOWN-DATE'');
          authorStr = (case author msg of
                         None \<Rightarrow> []
                       | Some a \<Rightarrow> if a \<noteq> [] then ''['' @ a @ ''] '' else []);
          block = ''['' @ dateStr @ ''] '' @ authorStr @ trim (content msg) @ ''['' @ msgId msg @ '']''
      in case replyTo msg of
           None \<Rightarrow> block
         | Some r \<Rightarrow>
             if r = [] then block
             else (case msgIndex r of
                     Some replyMsg \<Rightarrow>
                       ''> In reply to: '' @ dquote @ trim (take 60 (content replyMsg)) @ dquote
                         @ [newline] @ block
                   | None \<Rightarrow> ''> (Reply to ID: '' @ r @ '')'' @ [newline] @ block))"

text \<open>
  \<open>op.position\<close>: a string, an object with optional \<open>afterId\<close> and \<open>beforeId\<close>, or
  anything else (absent, null, a number). The section name \<open>op.category\<close> is a string.
\<close>

datatype position = PosString string | PosObject "string option" "string option" | PosOther

record operation =
  opMessageId :: string
  opCategory :: string
  opPosition :: position

text \<open>
  The working state of \<open>applyOperations\<close>: the lines, the two indexes, the counter, and
  what \<open>warn\<close> and \<open>log\<close> have printed.
\<close>

record applyState =
  newLines :: "string list"
  categoryIndex :: "string \<rightharpoonup> nat"
  messageIdToLine :: "string \<rightharpoonup> nat"
  insertedCount :: nat
  warnings :: "string list"
  logs :: "string list"

text \<open>\<open>line.match(/\[(\d+)\]$/)\<close>: the digits of a trailing bracketed number.\<close>

definition idMatch :: "string \<Rightarrow> string option" where
  "idMatch line =
     (case rev line of
        [] \<Rightarrow> None
      | c # r \<Rightarrow>
          if c = CHR '']'' \<and> takeWhile isDigit r \<noteq> [] \<and> startsWith (dropWhile isDigit r) ''[''
          then Some (rev (takeWhile isDigit r))
          else None)"

text \<open>The indexing loop of lines 290-299.\<close>

fun indexLines :: "string list \<Rightarrow> nat \<Rightarrow> (string \<rightharpoonup> nat) \<times> (string \<rightharpoonup> nat)
    \<Rightarrow> (string \<rightharpoonup> nat) \<times> (string \<rightharpoonup> nat)" where
  "indexLines [] i idx = idx"
| "indexLines (line # rest) i (cat, mid) =
     indexLines rest (i + 1)
       (if startsWith line ''## '' then cat(trim line \<mapsto> i) else cat,
        case idMatch line of None \<Rightarrow> mid | Some d \<Rightarrow> mid(d \<mapsto> i))"

definition initialState :: "string list \<Rightarrow> applyState" where
  "initialState markdownLines =
     (case indexLines markdownLines 0 (Map.empty, Map.empty) of
        (cat, mid) \<Rightarrow>
          \<lparr>newLines = markdownLines, categoryIndex = cat, messageIdToLine = mid,
           insertedCount = 0, warnings = [], logs = []\<rparr>)"

text \<open>The scan for the next header, from \<open>j\<close>; \<open>newLines.length\<close> when there is none.\<close>

function scanNextCat :: "string list \<Rightarrow> nat \<Rightarrow> nat" where
  "scanNextCat ls j =
     (if j < length ls
      then (if startsWith (ls ! j) ''## '' then j else scanNextCat ls (j + 1))
      else length ls)"
  by pat_completeness auto
termination
  by (relation "measure (\<lambda>(ls, j). length ls - j)") auto

declare scanNextCat.simps [simp del]

text \<open>Lines 320-327: the line of the section header, created at the end when missing.\<close>

definition resolveCategory :: "applyState \<Rightarrow> string \<Rightarrow> nat \<times> applyState" where
  "resolveCategory st category =
     (case categoryIndex st category of
        Some catLine \<Rightarrow> (catLine, st)
      | None \<Rightarrow>
          (let ls = newLines st @ [[], category, []];
               catLine = length ls - 2
           in (catLine,
               st\<lparr>newLines := ls,
                  categoryIndex := (categoryIndex st)(category \<mapsto> catLine),
                  logs := logs st @ [''Created category: '' @ category]\<rparr>)))"

text \<open>Lines 329-367: the insertion line, and the warnings printed on the way.\<close>

definition resolvePosition :: "applyState \<Rightarrow> nat \<Rightarrow> position \<Rightarrow> nat \<times> string list" where
  "resolvePosition st catLine pos =
     (case pos of
        PosString p \<Rightarrow>
          (if p = ''prepend'' then (catLine + 1, [])
           else if p = ''append'' then (scanNextCat (newLines st) (catLine + 1), [])
           else (catLine + 1, []))
      | PosObject afterId beforeId \<Rightarrow>
          (if truthy afterId then
             (case afterId of
                None \<Rightarrow> (catLine + 1, [])
              | Some a \<Rightarrow>
                  (case messageIdToLine st a of
                     Some refLine \<Rightarrow> (refLine + 1, [])
                   | None \<Rightarrow>
                       (scanNextCat (newLines st) (catLine + 1),
                        [''afterId '' @ a @ '' not found, defaulting to append''])))
           else if truthy beforeId then
             (case beforeId of
                None \<Rightarrow> (catLine + 1, [])
              | Some b \<Rightarrow>
                  (case messageIdToLine st b of
                     Some refLine \<Rightarrow> (refLine, [])
                   | None \<Rightarrow>
                       (catLine + 1,
                        [''beforeId '' @ b @ '' not found, defaulting to prepend''])))
           else (catLine + 1, []))
      | PosOther \<Rightarrow> (catLine + 1, []))"

text \<open>\<open>newLines.splice(insertLine, 0, block)\<close>: an index beyond the end appends.\<close>

definition spliceAt :: "string list \<Rightarrow> nat \<Rightarrow> string \<Rightarrow> string list" where
  "spliceAt ls k b = take k ls @ [b] @ drop k ls"

text \<open>Lines 373-378: every recorded line at or after the insertion moves down by one.\<close>

definition shiftFrom :: "nat \<Rightarrow> (string \<rightharpoonup> nat) \<Rightarrow> (string \<rightharpoonup> nat)" where
  "shiftFrom k m = (\<lambda>x. case m x of None \<Rightarrow> None | Some i \<Rightarrow> Some (if i \<ge> k then i + 1 else i))"

text \<open>One turn of the loop over the operations (lines 304-379).\<close>

definition applyOp :: "msgIndex \<Rightarrow> applyState \<Rightarrow> operation \<Rightarrow> applyState" where
  "applyOp msgIndex st op =
     (let mId = opMessageId op
      in case msgIndex mId of
           None \<Rightarrow>
             st\<lparr>warnings := warnings st @ [''Message ID '' @ mId @ '' not found in input data, skipping'']\<rparr>
         | Some msg \<Rightarrow>
             (case messageIdToLine st mId of
                Some _ \<Rightarrow>
                  st\<lparr>logs := logs st @ [''Message ID '' @ mId @ '' already exists in compendium, skipping'']\<rparr>
              | None \<Rightarrow>
                  (let block = formatMessageBlock msg msgIndex;
                       category = trim (opCategory op)
                   in case resolveCategory st category of
                        (catLine, st1) \<Rightarrow>
                          (case resolvePosition st1 catLine (opPosition op) of
                             (insertLine, ws) \<Rightarrow>
                               st1\<lparr>newLines := spliceAt (newLines st1) insertLine block,
                                   categoryIndex := shiftFrom insertLine (categoryIndex st1),
                                   messageIdToLine :=
                                     (shiftFrom insertLine (messageIdToLine st1))(mId \<mapsto> insertLine),
                                   insertedCount := insertedCount st1 + 1,
                                   warnings := warnings st1 @ ws\<rparr>))))"

text \<open>\<open>lines.join('
')\<close>.\<close>

fun joinLines :: "string list \<Rightarrow> string" where
  "joinLines [] = []"
| "joinLines [l] = l"
| "joinLines (l # ls) = l @ [newline] @ joinLines ls"

definition runOperations :: "string list \<Rightarrow> operation list \<Rightarrow> msgIndex \<Rightarrow> applyState" where
  "runOperations markdownLines operations msgIndex =
     foldl (applyOp msgIndex) (initialState markdownLines) operations"

definition applyOperations :: "string list \<Rightarrow> operation list \<Rightarrow> msgIndex \<Rightarrow> string" where
  "applyOperations markdownLines operations msgIndex =
     joinLines (newLines (runOperations markdownLines operations msgIndex))"

text \<open>
  Consistency of the two indexes with the lines: a recorded section line exists and
  holds the section's header, a recorded anchor line exists. It is an invariant of the
  loop, stated here and proved below.
\<close>

definition indexOk :: "applyState \<Rightarrow> bool" where
  "indexOk st =
     ((\<forall>c i. categoryIndex st c = Some i \<longrightarrow> i < length (newLines st) \<and> trim (newLines st ! i) = c)
      \<and> (\<forall>d i. messageIdToLine st d = Some i \<longrightarrow> i < length (newLines st)))"

section \<open>Properties of the citation offset resolver\<close>

lemma findIndex_takeWhile:
  "findIndex P xs = (if \<exists>x\<in>set xs. P x then Some (length (takeWhile (\<lambda>x. \<not> P x) xs)) else None)"
  by (induction xs) auto

lemma skipClosers_takeWhile:
  "skipClosers t i = i + length (takeWhile isCloser (drop i t))"
proof (induction t i rule: skipClosers.induct)
  case (1 t idx)
  show ?case
  proof (cases "idx < length t \<and> isCloser (t ! idx)")
    case True
    then have d: "drop idx t = t ! idx # drop (Suc idx) t"
      by (simp add: Cons_nth_drop_Suc)
    from True "1" show ?thesis
      by (subst skipClosers.simps) (simp add: d)
  next
    case False
    show ?thesis
    proof (cases "idx < length t")
      case True
      then have d: "drop idx t = t ! idx # drop (Suc idx) t"
        by (simp add: Cons_nth_drop_Suc)
      from True False show ?thesis
        by (subst skipClosers.simps) (simp add: d)
    next
      case False
      then show ?thesis
        by (subst skipClosers.simps) simp
    qed
  qed
qed

lemma findIndex_Some:
  "findIndex P xs = Some i \<Longrightarrow> i < length xs \<and> P (xs ! i)"
proof (induction xs arbitrary: i)
  case Nil
  then show ?case by simp
next
  case (Cons x xs)
  then show ?case
    by (cases "P x") (auto split: option.splits)
qed

lemma skipClosers_last:
  "skipClosers t i = i \<or> (i < skipClosers t i \<and> skipClosers t i \<le> length t \<and> isCloser (t ! (skipClosers t i - 1)))"
proof (induction t i rule: skipClosers.induct)
  case (1 t idx)
  show ?case
  proof (cases "idx < length t \<and> isCloser (t ! idx)")
    case True
    then have eq: "skipClosers t idx = skipClosers t (idx + 1)"
      by (subst skipClosers.simps) simp
    from "1" [OF True] True show ?thesis
      unfolding eq by auto
  next
    case False
    then have "skipClosers t idx = idx"
      by (subst skipClosers.simps) auto
    then show ?thesis by simp
  qed
qed

lemma not_alnum_terminator: "isTerminator c \<Longrightarrow> \<not> isAlnum c"
  by (auto simp: isTerminator_def isAlnum_def)

lemma not_alnum_closer: "isCloser c \<Longrightarrow> \<not> isAlnum c"
  by (auto simp: isCloser_def isAlnum_def)

lemma not_alnum_newline: "\<not> isAlnum newline"
  by (simp add: newline_def isAlnum_def)

lemma moveToSentenceEnd_cases:
  "moveToSentenceEnd t at = length t
   \<or> (moveToSentenceEnd t at < length t \<and> t ! moveToSentenceEnd t at = newline)
   \<or> (0 < moveToSentenceEnd t at \<and> moveToSentenceEnd t at \<le> length t \<and>
       (isTerminator (t ! (moveToSentenceEnd t at - 1)) \<or> isCloser (t ! (moveToSentenceEnd t at - 1))))"
proof -
  define n where "n = length t"
  define start where "start = nat (max 0 (min (int n) at))"
  define tail where "tail = drop start t"
  have mv: "moveToSentenceEnd t at =
      (if start \<ge> n then n
       else (case findIndex isTerminator tail of
               None \<Rightarrow> (case findIndex isNewline tail of None \<Rightarrow> n | Some nl \<Rightarrow> start + nl)
             | Some mi \<Rightarrow> skipClosers t (start + mi + 1)))"
    unfolding moveToSentenceEnd_def Let_def n_def start_def tail_def by (rule refl)
  show ?thesis
  proof (cases "start \<ge> n")
    case True
    with mv have "moveToSentenceEnd t at = length t"
      by (simp add: n_def)
    then show ?thesis by simp
  next
    case False
    note lt = this
    show ?thesis
    proof (cases "findIndex isTerminator tail")
      case None
      note noTerm = this
      show ?thesis
      proof (cases "findIndex isNewline tail")
        case None
        with noTerm lt mv have "moveToSentenceEnd t at = length t"
          by (simp add: n_def)
        then show ?thesis by simp
      next
        case (Some nl)
        from findIndex_Some [OF Some] have nl: "nl < length tail" "tail ! nl = newline"
          by (simp_all add: isNewline_def)
        from Some noTerm lt mv have eq: "moveToSentenceEnd t at = start + nl"
          by simp
        from nl have "start + nl < length t" "t ! (start + nl) = newline"
          by (auto simp: tail_def)
        with eq show ?thesis by simp
      qed
    next
      case (Some mi)
      from findIndex_Some [OF Some] have mi: "mi < length tail" "isTerminator (tail ! mi)"
        by simp_all
      then have in_range: "start + mi < length t" and tm: "isTerminator (t ! (start + mi))"
        by (auto simp: tail_def)
      from Some lt mv have eq: "moveToSentenceEnd t at = skipClosers t (start + mi + 1)"
        by simp
      from skipClosers_last [of t "start + mi + 1"] in_range tm show ?thesis
        unfolding eq by auto
    qed
  qed
qed

text \<open>
  Claim C2, as amended. For an offset within the text, the resolver looks for the first
  sentence terminator anywhere in the rest of the text, line breaks included: when there
  is one, the snapped offset is just after it and after the closing quotes, parentheses
  and brackets that follow it directly; only when the rest of the text holds no
  terminator at all is the offset snapped to the next line break, and to the end of the
  text when there is no line break either.
\<close>

theorem moveToSentenceEnd_spec:
  assumes "0 \<le> at" "at \<le> int (length t)"
  shows "let start = nat at; tail = drop start t;
             k = length (takeWhile (\<lambda>c. \<not> isTerminator c) tail)
         in ((\<exists>c\<in>set tail. isTerminator c) \<longrightarrow>
               moveToSentenceEnd t at =
                 start + k + 1 + length (takeWhile isCloser (drop (start + k + 1) t)))
          \<and> ((\<forall>c\<in>set tail. \<not> isTerminator c) \<and> newline \<in> set tail \<longrightarrow>
               moveToSentenceEnd t at = start + length (takeWhile (\<lambda>c. c \<noteq> newline) tail))
          \<and> ((\<forall>c\<in>set tail. \<not> isTerminator c) \<and> newline \<notin> set tail \<longrightarrow>
               moveToSentenceEnd t at = length t)"
  using assms
  by (auto simp: moveToSentenceEnd_def Let_def findIndex_takeWhile skipClosers_takeWhile
      isNewline_def min_def max_def)

theorem moveToSentenceEnd_spec_witness:
  "moveToSentenceEnd ''Ramen is cheap here.'' 5 = 20
   \<and> moveToSentenceEnd (''no end'' @ [newline] @ ''next'') 3 = 6
   \<and> moveToSentenceEnd ''no end'' 3 = 6"
proof -
  have a: "moveToSentenceEnd ''Ramen is cheap here.'' 5 = 20"
    using moveToSentenceEnd_spec [of 5 "''Ramen is cheap here.''"]
    by (simp add: isTerminator_def isCloser_def)
  have b: "moveToSentenceEnd (''no end'' @ [newline] @ ''next'') 3 = 6"
    using moveToSentenceEnd_spec [of 3 "''no end'' @ [newline] @ ''next''"]
    by (simp add: isTerminator_def newline_def)
  have c: "moveToSentenceEnd ''no end'' 3 = 6"
    using moveToSentenceEnd_spec [of 3 "''no end''"]
    by (simp add: isTerminator_def newline_def)
  from a b c show ?thesis by simp
qed

text \<open>
  Claim C2 as the specification states it fails: in the text \<open>ab\<close>, line break, \<open>cd.\<close>
  the first line break after offset 0 is at offset 2 and no terminator stands before it,
  yet the offset is snapped to 6, after the full stop of the second line.
\<close>

theorem moveToSentenceEnd_line_break_counterexample:
  "findIndex isNewline (drop 0 (''ab'' @ [newline] @ ''cd.'')) = Some 2
   \<and> findIndex isTerminator (take 2 (drop 0 (''ab'' @ [newline] @ ''cd.''))) = None
   \<and> moveToSentenceEnd (''ab'' @ [newline] @ ''cd.'') 0 = 6
   \<and> moveToSentenceEnd (''ab'' @ [newline] @ ''cd.'') 0 \<noteq> 2"
  by (simp add: moveToSentenceEnd_def isNewline_def isTerminator_def newline_def skipClosers.simps)

text \<open>
  Claim C4. Whatever the text and the requested offset, the snapped offset never has an
  alphanumeric character both directly before it and directly after it: a marker put
  there does not split a word.
\<close>

theorem snap_never_splits_word:
  "\<not> (0 < moveToSentenceEnd t at \<and> moveToSentenceEnd t at < length t
      \<and> isAlnum (t ! (moveToSentenceEnd t at - 1)) \<and> isAlnum (t ! moveToSentenceEnd t at))"
  using moveToSentenceEnd_cases [of t at]
  by (auto dest: not_alnum_terminator not_alnum_closer simp: not_alnum_newline)

section \<open>Properties of the reference numbering\<close>

lemma map_of_groupsPush:
  "map_of (groupsPush g k v) k' = (if k' = k then Some (groupsGet g k @ [v]) else map_of g k')"
  by (induction g k v rule: groupsPush.induct) (auto simp: groupsGet_def)

lemma groupsGet_groupsPush:
  "groupsGet (groupsPush g k v) k' = (if k' = k then groupsGet g k @ [v] else groupsGet g k')"
  by (simp add: groupsGet_def map_of_groupsPush)

lemma keys_groupsPush:
  "map fst (groupsPush g k v) = (if k \<in> fst ` set g then map fst g else map fst g @ [k])"
  by (induction g k v rule: groupsPush.induct) (auto simp: image_iff)

lemma distinct_groupsPush:
  "distinct (map fst g) \<Longrightarrow> distinct (map fst (groupsPush g k v))"
  by (simp add: keys_groupsPush)

lemma groupsGet_groupInserts:
  "groupsGet (groupInserts t g xs) k =
     groupsGet g k @ filter (\<lambda>i. snapOf t i = k) xs"
  by (induction xs arbitrary: g) (auto simp: groupsGet_groupsPush)

lemma keys_groupInserts:
  "fst ` set (groupInserts t g xs) = fst ` set g \<union> snapOf t ` set xs"
proof (induction xs arbitrary: g)
  case Nil
  then show ?case by simp
next
  case (Cons x xs)
  have "fst ` set (groupsPush g k v) = insert k (fst ` set g)" for k v
    using keys_groupsPush [of g k v]
    by (metis (no_types, lifting) insert_absorb list.set_map set_append list.simps(15) Un_insert_right sup_bot.right_neutral empty_set)
  with Cons show ?case by auto
qed

lemma distinct_groupInserts:
  "distinct (map fst g) \<Longrightarrow> distinct (map fst (groupInserts t g xs))"
  by (induction xs arbitrary: g) (auto simp: distinct_groupsPush)

lemma numberGroup_trace:
  "numberGroup at xs nums st = (nums', st') \<Longrightarrow>
     refNumber st' = refNumber st + length xs
     \<and> map fst (assigned st') = map fst (assigned st) @ [refNumber st ..< refNumber st + length xs]
     \<and> map snd (assigned st') = map snd (assigned st) @ map (Pair at) xs
     \<and> insertMarkers st' = insertMarkers st"
proof (induction xs arbitrary: nums st)
  case Nil
  then show ?case by simp
next
  case (Cons x xs)
  define st1 where "st1 = st\<lparr>refNumber := refNumber st + 1,
       footnotes := (footnotes st)(showNat (refNumber st) \<mapsto> uniq (messageIds x)),
       assigned := assigned st @ [(refNumber st, at, x)]\<rparr>"
  from Cons.prems have "numberGroup at xs (nums @ [refNumber st]) st1 = (nums', st')"
    by (simp add: Let_def st1_def)
  from Cons.IH [OF this]
  have ih: "refNumber st' = refNumber st1 + length xs"
    "map fst (assigned st') = map fst (assigned st1) @ [refNumber st1 ..< refNumber st1 + length xs]"
    "map snd (assigned st') = map snd (assigned st1) @ map (Pair at) xs"
    "insertMarkers st' = insertMarkers st1"
    by simp_all
  have upt: "[refNumber st ..< refNumber st + length (x # xs)]
      = refNumber st # [Suc (refNumber st) ..< Suc (refNumber st) + length xs]"
    by (simp add: upt_conv_Cons del: upt_Suc)
  show ?case
    unfolding ih upt by (simp add: st1_def del: upt_Suc)
qed

lemma numberAll_trace:
  "refNumber (numberAll g ats st) = refNumber st + length (concat (map (groupsGet g) ats))
   \<and> map fst (assigned (numberAll g ats st)) =
       map fst (assigned st) @ [refNumber st ..< refNumber st + length (concat (map (groupsGet g) ats))]
   \<and> map snd (assigned (numberAll g ats st)) =
       map snd (assigned st) @ concat (map (\<lambda>at. map (Pair at) (groupsGet g at)) ats)"
proof (induction ats arbitrary: st)
  case Nil
  then show ?case by simp
next
  case (Cons a ats)
  obtain nums st' where ng: "numberGroup a (groupsGet g a) [] st = (nums, st')"
    by (cases "numberGroup a (groupsGet g a) [] st") auto
  note tr = numberGroup_trace [OF ng]
  define st'' where "st'' = st'\<lparr>insertMarkers := insertMarkers st' @ [(a, formatMarker nums)]\<rparr>"
  have eq: "numberAll g (a # ats) st = numberAll g ats st''"
    by (simp add: ng st''_def)
  have s2: "refNumber st'' = refNumber st + length (groupsGet g a)"
    "map fst (assigned st'') = map fst (assigned st) @ [refNumber st ..< refNumber st + length (groupsGet g a)]"
    "map snd (assigned st'') = map snd (assigned st) @ map (Pair a) (groupsGet g a)"
    using tr by (simp_all add: st''_def)
  have upt: "[refNumber st ..< refNumber st + length (groupsGet g a)]
      @ [refNumber st + length (groupsGet g a) ..< refNumber st + length (groupsGet g a) + m]
      = [refNumber st ..< refNumber st + (length (groupsGet g a) + m)]" for m
    by (metis add.assoc le_add1 upt_add_eq_append)
  show ?case
    unfolding eq using Cons.IH [of st''] s2 upt by simp
qed


lemma sorted_concat_groups:
  fixes f :: "'a \<Rightarrow> nat"
  shows "sorted ats \<Longrightarrow> sorted (map f (concat (map (\<lambda>at. filter (\<lambda>i. f i = at) xs) ats)))"
proof (induction ats)
  case Nil
  then show ?case by simp
next
  case (Cons a ats)
  have "sorted (map f (filter (\<lambda>i. f i = a) xs))"
    by (induction xs) auto
  with Cons show ?case
    by (auto simp: sorted_append)
qed

lemma filter_concat_groups:
  "distinct ats \<Longrightarrow>
     filter (\<lambda>x. f x = k) (concat (map (\<lambda>at. filter (\<lambda>i. f i = at) xs) ats))
       = (if k \<in> set ats then filter (\<lambda>i. f i = k) xs else [])"
proof (induction ats)
  case Nil
  then show ?case by simp
next
  case (Cons a ats)
  have one: "filter (\<lambda>x. f x = a \<and> f x = k) xs
      = (if k = a then filter (\<lambda>i. f i = k) xs else [])"
    by (induction xs) auto
  from Cons show ?case
    by (auto simp: one)
qed

lemma mset_concat_groups:
  assumes "distinct ats" "f ` set xs \<subseteq> set ats"
  shows "mset (concat (map (\<lambda>at. filter (\<lambda>i. f i = at) xs) ats)) = mset xs"
proof (rule multiset_eqI)
  fix x
  let ?ys = "concat (map (\<lambda>at. filter (\<lambda>i. f i = at) xs) ats)"
  have fl: "filter (\<lambda>y. f y = f x) ?ys = filter (\<lambda>y. f y = f x) xs"
  proof (cases "f x \<in> set ats")
    case True
    with assms(1) show ?thesis by (simp add: filter_concat_groups)
  next
    case False
    with assms(2) have "\<forall>y\<in>set xs. f y \<noteq> f x" by auto
    then have "filter (\<lambda>y. f y = f x) xs = []" by (simp add: filter_empty_conv)
    with False assms(1) show ?thesis by (simp add: filter_concat_groups)
  qed
  have "count (mset ?ys) x = count (mset (filter (\<lambda>y. f y = f x) ?ys)) x"
    by (simp only: mset_filter count_filter_mset) simp
  also have "\<dots> = count (mset (filter (\<lambda>y. f y = f x) xs)) x"
    by (simp only: fl)
  also have "\<dots> = count (mset xs) x"
    by (simp only: mset_filter count_filter_mset) simp
  finally show "count (mset ?ys) x = count (mset xs) x" .
qed

lemma concat_groups_sort_key:
  fixes f :: "'a \<Rightarrow> nat"
  assumes "sorted ats" "distinct ats" "f ` set xs \<subseteq> set ats"
  shows "concat (map (\<lambda>at. filter (\<lambda>i. f i = at) xs) ats) = sort_key f xs"
proof -
  let ?ys = "concat (map (\<lambda>at. filter (\<lambda>i. f i = at) xs) ats)"
  have m: "mset ?ys = mset xs"
    using assms(2,3) by (rule mset_concat_groups)
  have st: "filter (\<lambda>x. f k = f x) ?ys = filter (\<lambda>x. f k = f x) xs" if "k \<in> set ?ys" for k
  proof -
    from that m have "k \<in> set xs" by (metis set_mset_mset)
    with assms(3) have "f k \<in> set ats" by auto
    with assms(2) have "filter (\<lambda>x. f x = f k) ?ys = filter (\<lambda>x. f x = f k) xs"
      by (simp add: filter_concat_groups)
    then show ?thesis by (simp add: eq_commute)
  qed
  have "sort_key f xs = ?ys"
    using m st sorted_concat_groups [OF assms(1)] by (rule properties_for_sort_key)
  then show ?thesis by simp
qed


lemma numberEntry_groups:
  "concat (map (groupsGet (groupInserts t [] inserts)) (sort (map fst (groupInserts t [] inserts))))
     = sort_key (snapOf t) inserts"
proof -
  define g where "g = groupInserts t [] inserts"
  define ats where "ats = sort (map fst g)"
  have get: "groupsGet g k = filter (\<lambda>i. snapOf t i = k) inserts" for k
  proof -
    have "groupsGet ([] :: (nat \<times> validInsert list) list) k = []"
      by (simp add: groupsGet_def)
    then show ?thesis
      unfolding g_def groupsGet_groupInserts by simp
  qed
  have dist: "distinct ats"
    using distinct_groupInserts [of "[]" t inserts] by (simp add: ats_def g_def)
  have srt: "sorted ats"
    by (simp add: ats_def)
  have keys: "set ats = snapOf t ` set inserts"
    using keys_groupInserts [of t "[]" inserts] by (simp add: ats_def g_def)
  have "concat (map (groupsGet g) ats) = sort_key (snapOf t) inserts"
    using concat_groups_sort_key [OF srt dist, of "snapOf t" inserts] keys
    by (simp add: get [abs_def])
  then show ?thesis
    by (simp only: g_def ats_def)
qed

lemma numberEntry_trace:
  "map fst (assigned (numberEntry t inserts)) = [1 ..< Suc (length inserts)]
   \<and> map snd (assigned (numberEntry t inserts)) =
       map (\<lambda>i. (snapOf t i, i)) (sort_key (snapOf t) inserts)"
proof -
  define g where "g = groupInserts t [] inserts"
  define ats where "ats = sort (map fst g)"
  have get: "groupsGet g k = filter (\<lambda>i. snapOf t i = k) inserts" for k
  proof -
    have "groupsGet ([] :: (nat \<times> validInsert list) list) k = []"
      by (simp add: groupsGet_def)
    then show ?thesis
      unfolding g_def groupsGet_groupInserts by simp
  qed
  have cc: "concat (map (groupsGet g) ats) = sort_key (snapOf t) inserts"
    unfolding g_def ats_def by (rule numberEntry_groups)
  have pr: "concat (map (\<lambda>at. map (Pair at) (groupsGet g at)) ats)
      = map (\<lambda>i. (snapOf t i, i)) (concat (map (groupsGet g) ats))"
    by (induction ats) (auto simp: get)
  have ne: "numberEntry t inserts = numberAll g ats initialFootnoteState"
    by (simp add: numberEntry_def Let_def g_def ats_def)
  from numberAll_trace [of g ats initialFootnoteState] show ?thesis
    unfolding ne pr cc by (simp add: initialFootnoteState_def)
qed

lemma digitChar_inj: "d < 10 \<Longrightarrow> e < 10 \<Longrightarrow> digitChar d = digitChar e \<Longrightarrow> d = e"
proof -
  assume d: "d < 10" and e: "e < 10" and eq: "digitChar d = digitChar e"
  have dist: "distinct ''0123456789''" by simp
  have len: "length ''0123456789'' = 10" by simp
  from eq have "''0123456789'' ! d = ''0123456789'' ! e" by (simp only: digitChar_def)
  with dist d e len show "d = e"
    by (simp only: nth_eq_iff_index_eq)
qed

lemma showNat_small: "n < 10 \<Longrightarrow> showNat n = [digitChar n]"
  by (subst showNat.simps) simp

lemma showNat_big: "\<not> n < 10 \<Longrightarrow> showNat n = showNat (n div 10) @ [digitChar (n mod 10)]"
  by (subst showNat.simps) simp

lemma showNat_nonempty: "showNat n \<noteq> []"
  by (cases "n < 10") (simp_all add: showNat_small showNat_big)

lemma showNat_inj: "showNat n = showNat m \<Longrightarrow> n = m"
proof (induction n arbitrary: m rule: less_induct)
  case (less n)
  show ?case
  proof (cases "n < 10")
    case True
    note n = this
    show ?thesis
    proof (cases "m < 10")
      case True
      with n less.prems show ?thesis
        by (simp add: showNat_small digitChar_inj)
    next
      case False
      with n less.prems showNat_nonempty [of "m div 10"] show ?thesis
        by (simp add: showNat_small showNat_big)
    qed
  next
    case False
    note n = this
    show ?thesis
    proof (cases "m < 10")
      case True
      with n less.prems showNat_nonempty [of "n div 10"] show ?thesis
        by (simp add: showNat_small showNat_big)
    next
      case False
      with n less.prems have a: "showNat (n div 10) = showNat (m div 10)"
        and b: "digitChar (n mod 10) = digitChar (m mod 10)"
        by (simp_all add: showNat_big)
      from n have "n div 10 < n" by simp
      from less.IH [OF this a] have q: "n div 10 = m div 10" .
      from b have r: "n mod 10 = m mod 10"
        by (intro digitChar_inj) simp_all
      from q r show ?thesis
        by (metis div_mult_mod_eq)
    qed
  qed
qed

lemma numberGroup_footnotes:
  "numberGroup at xs nums st = (nums', st') \<Longrightarrow>
     (\<forall>k. (\<forall>n. refNumber st \<le> n \<longrightarrow> k \<noteq> showNat n) \<longrightarrow> footnotes st' k = footnotes st k)
     \<and> (\<forall>j < length xs. footnotes st' (showNat (refNumber st + j)) = Some (uniq (messageIds (xs ! j))))"
proof (induction xs arbitrary: nums st)
  case Nil
  then show ?case by simp
next
  case (Cons x xs)
  define st1 where "st1 = st\<lparr>refNumber := refNumber st + 1,
       footnotes := (footnotes st)(showNat (refNumber st) \<mapsto> uniq (messageIds x)),
       assigned := assigned st @ [(refNumber st, at, x)]\<rparr>"
  from Cons.prems have "numberGroup at xs (nums @ [refNumber st]) st1 = (nums', st')"
    by (simp add: Let_def st1_def)
  from Cons.IH [OF this]
  have keep: "\<And>k. (\<forall>n. refNumber st1 \<le> n \<longrightarrow> k \<noteq> showNat n) \<Longrightarrow> footnotes st' k = footnotes st1 k"
    and new: "\<And>j. j < length xs \<Longrightarrow> footnotes st' (showNat (refNumber st1 + j)) = Some (uniq (messageIds (xs ! j)))"
    by blast+
  have r1: "refNumber st1 = Suc (refNumber st)" by (simp add: st1_def)
  have f1: "footnotes st1 = (footnotes st)(showNat (refNumber st) \<mapsto> uniq (messageIds x))"
    by (simp add: st1_def)
  have A: "footnotes st' k = footnotes st k" if "\<forall>n. refNumber st \<le> n \<longrightarrow> k \<noteq> showNat n" for k
  proof -
    from that have "\<forall>n. refNumber st1 \<le> n \<longrightarrow> k \<noteq> showNat n" by (simp add: r1)
    from keep [OF this] have "footnotes st' k = footnotes st1 k" .
    moreover from that have "k \<noteq> showNat (refNumber st)" by simp
    ultimately show ?thesis by (simp add: f1)
  qed
  have B: "footnotes st' (showNat (refNumber st + j)) = Some (uniq (messageIds ((x # xs) ! j)))"
    if "j < length (x # xs)" for j
  proof (cases j)
    case 0
    have "\<forall>n. refNumber st1 \<le> n \<longrightarrow> showNat (refNumber st) \<noteq> showNat n"
      using showNat_inj [of "refNumber st"] by (auto simp: r1)
    from keep [OF this] 0 show ?thesis by (simp add: f1)
  next
    case (Suc i)
    with that have "i < length xs" by simp
    from new [OF this] Suc show ?thesis by (simp add: r1)
  qed
  from A B show ?case by blast
qed

lemma numberAll_footnotes:
  "(\<forall>k. (\<forall>n. refNumber st \<le> n \<longrightarrow> k \<noteq> showNat n) \<longrightarrow> footnotes (numberAll g ats st) k = footnotes st k)
   \<and> (\<forall>j < length (concat (map (groupsGet g) ats)).
         footnotes (numberAll g ats st) (showNat (refNumber st + j))
           = Some (uniq (messageIds (concat (map (groupsGet g) ats) ! j))))"
proof (induction ats arbitrary: st)
  case Nil
  then show ?case by simp
next
  case (Cons a ats)
  obtain nums st' where ng: "numberGroup a (groupsGet g a) [] st = (nums, st')"
    by (cases "numberGroup a (groupsGet g a) [] st") auto
  define st'' where "st'' = st'\<lparr>insertMarkers := insertMarkers st' @ [(a, formatMarker nums)]\<rparr>"
  have eq: "numberAll g (a # ats) st = numberAll g ats st''"
    by (simp add: ng st''_def)
  let ?xs = "groupsGet g a"
  let ?rest = "concat (map (groupsGet g) ats)"
  from numberGroup_trace [OF ng] have r: "refNumber st'' = refNumber st + length ?xs"
    by (simp add: st''_def)
  from numberGroup_footnotes [OF ng]
  have keep1: "\<And>k. (\<forall>n. refNumber st \<le> n \<longrightarrow> k \<noteq> showNat n) \<Longrightarrow> footnotes st'' k = footnotes st k"
    and new1: "\<And>j. j < length ?xs \<Longrightarrow> footnotes st'' (showNat (refNumber st + j)) = Some (uniq (messageIds (?xs ! j)))"
    by (simp_all add: st''_def)
  from Cons.IH [of st'']
  have keep2: "\<And>k. (\<forall>n. refNumber st'' \<le> n \<longrightarrow> k \<noteq> showNat n) \<Longrightarrow> footnotes (numberAll g ats st'') k = footnotes st'' k"
    and new2: "\<And>j. j < length ?rest \<Longrightarrow> footnotes (numberAll g ats st'') (showNat (refNumber st'' + j))
        = Some (uniq (messageIds (?rest ! j)))"
    by blast+
  have A: "footnotes (numberAll g ats st'') k = footnotes st k"
    if h: "\<forall>n. refNumber st \<le> n \<longrightarrow> k \<noteq> showNat n" for k
  proof -
    from h have "\<forall>n. refNumber st'' \<le> n \<longrightarrow> k \<noteq> showNat n" by (simp add: r)
    from keep2 [OF this] keep1 [OF h] show ?thesis by simp
  qed
  have B: "footnotes (numberAll g ats st'') (showNat (refNumber st + j))
      = Some (uniq (messageIds ((?xs @ ?rest) ! j)))" if j: "j < length (?xs @ ?rest)" for j
  proof (cases "j < length ?xs")
    case True
    have "\<forall>n. refNumber st'' \<le> n \<longrightarrow> showNat (refNumber st + j) \<noteq> showNat n"
    proof (intro allI impI)
      fix n assume "refNumber st'' \<le> n"
      with True r have "refNumber st + j \<noteq> n" by simp
      then show "showNat (refNumber st + j) \<noteq> showNat n" using showNat_inj by blast
    qed
    from keep2 [OF this] new1 [OF True] True show ?thesis by (simp add: nth_append)
  next
    case False
    define i where "i = j - length ?xs"
    from False j have i: "i < length ?rest" and ji: "j = length ?xs + i" by (simp_all add: i_def)
    from new2 [OF i] show ?thesis
      unfolding ji r by (simp add: nth_append add.assoc)
  qed
  from A B show ?case unfolding eq by simp
qed

lemma numberEntry_footnotes:
  assumes "j < length inserts"
  shows "footnotes (numberEntry t inserts) (showNat (Suc j))
           = Some (uniq (messageIds (sort_key (snapOf t) inserts ! j)))"
proof -
  define g where "g = groupInserts t [] inserts"
  define ats where "ats = sort (map fst g)"
  have cc: "concat (map (groupsGet g) ats) = sort_key (snapOf t) inserts"
    unfolding g_def ats_def by (rule numberEntry_groups)
  have ne: "numberEntry t inserts = numberAll g ats initialFootnoteState"
    by (simp add: numberEntry_def Let_def g_def ats_def)
  have r: "refNumber initialFootnoteState = 1"
    by (simp add: initialFootnoteState_def)
  from assms have "j < length (concat (map (groupsGet g) ats))"
    unfolding cc by simp
  with numberAll_footnotes [of initialFootnoteState g ats]
  have "footnotes (numberAll g ats initialFootnoteState) (showNat (refNumber initialFootnoteState + j))
      = Some (uniq (messageIds (concat (map (groupsGet g) ats) ! j)))"
    by blast
  then show ?thesis
    unfolding ne cc r by simp
qed

text \<open>
  Claim C3. For every entry text and every list of valid citation requests, the numbers
  handed out are 1, 2, ... in this order: the requests sorted by ascending final snapped
  offset, the requests of one offset staying in the order in which they were supplied
  (the stable sort \<open>sort_key\<close>; the third and fourth conjuncts spell this out). So of two
  requests with different final offsets, the one with the larger offset has the strictly
  larger number. The numbers of the trace are the keys of the footnote table: the entry
  under a request's number holds that request's message ids, duplicates removed.
\<close>

theorem reference_numbers_in_offset_order:
  "map fst (assigned (numberEntry t inserts)) = [1 ..< Suc (length inserts)]
   \<and> map snd (assigned (numberEntry t inserts)) =
       map (\<lambda>i. (snapOf t i, i)) (sort_key (snapOf t) inserts)
   \<and> sorted (map (\<lambda>x. fst (snd x)) (assigned (numberEntry t inserts)))
   \<and> (\<forall>k. filter (\<lambda>i. snapOf t i = k) (map (\<lambda>x. snd (snd x)) (assigned (numberEntry t inserts)))
          = filter (\<lambda>i. snapOf t i = k) inserts)
   \<and> (\<forall>x\<in>set (assigned (numberEntry t inserts)). \<forall>y\<in>set (assigned (numberEntry t inserts)).
          fst (snd x) < fst (snd y) \<longrightarrow> fst x < fst y)
   \<and> (\<forall>x\<in>set (assigned (numberEntry t inserts)).
          footnotes (numberEntry t inserts) (showNat (fst x)) = Some (uniq (messageIds (snd (snd x)))))"
proof -
  let ?as = "assigned (numberEntry t inserts)"
  let ?srt = "sort_key (snapOf t) inserts"
  from numberEntry_trace [of t inserts]
  have nums: "map fst ?as = [1 ..< Suc (length inserts)]"
    and prs: "map snd ?as = map (\<lambda>i. (snapOf t i, i)) ?srt"
    by simp_all
  have offs: "map (\<lambda>x. fst (snd x)) ?as = map (snapOf t) ?srt"
  proof -
    have "map (\<lambda>x. fst (snd x)) ?as = map fst (map snd ?as)" by simp
    also have "\<dots> = map (snapOf t) ?srt" unfolding prs by simp
    finally show ?thesis .
  qed
  have reqs: "map (\<lambda>x. snd (snd x)) ?as = ?srt"
  proof -
    have "map (\<lambda>x. snd (snd x)) ?as = map snd (map snd ?as)" by simp
    also have "\<dots> = ?srt" unfolding prs by (simp add: comp_def)
    finally show ?thesis .
  qed
  have srt: "sorted (map (\<lambda>x. fst (snd x)) ?as)"
    unfolding offs by simp
  have stable: "filter (\<lambda>i. snapOf t i = k) (map (\<lambda>x. snd (snd x)) ?as)
      = filter (\<lambda>i. snapOf t i = k) inserts" for k
    unfolding reqs by (rule sort_key_stable)
  have len: "length ?as = length inserts"
    using nums by (metis length_map length_upt diff_Suc_1)
  have mono: "fst x < fst y"
    if x: "x \<in> set ?as" and y: "y \<in> set ?as" and lt: "fst (snd x) < fst (snd y)" for x y
  proof -
    from x obtain p where p: "p < length ?as" "?as ! p = x" by (auto simp: in_set_conv_nth)
    from y obtain q where q: "q < length ?as" "?as ! q = y" by (auto simp: in_set_conv_nth)
    have idx: "fst (?as ! i) = Suc i" if "i < length ?as" for i
    proof -
      have "fst (?as ! i) = map fst ?as ! i" using that by simp
      also have "\<dots> = [1 ..< Suc (length inserts)] ! i" by (simp only: nums)
      also have "\<dots> = 1 + i" using that len by (intro nth_upt) simp
      finally show ?thesis by simp
    qed
    from idx [OF p(1)] p(2) have fx: "fst x = Suc p" by simp
    from idx [OF q(1)] q(2) have fy: "fst y = Suc q" by simp
    have "p < q"
    proof (rule ccontr)
      assume "\<not> p < q"
      then have "q \<le> p" by simp
      moreover have "p < length (map (\<lambda>x. fst (snd x)) ?as)" using p(1) by simp
      ultimately have "map (\<lambda>x. fst (snd x)) ?as ! q \<le> map (\<lambda>x. fst (snd x)) ?as ! p"
        using srt by (rule sorted_nth_mono [rotated])
      with p q lt show False by simp
    qed
    with fx fy show ?thesis by simp
  qed
  have table: "footnotes (numberEntry t inserts) (showNat (fst x)) = Some (uniq (messageIds (snd (snd x))))"
    if x: "x \<in> set ?as" for x
  proof -
    from x obtain p where p: "p < length ?as" "?as ! p = x" by (auto simp: in_set_conv_nth)
    have "fst (?as ! p) = map fst ?as ! p" using p(1) by simp
    also have "\<dots> = [1 ..< Suc (length inserts)] ! p" by (simp only: nums)
    also have "\<dots> = 1 + p" using p(1) len by (intro nth_upt) simp
    finally have fx: "fst x = Suc p" using p(2) by simp
    have "snd (snd (?as ! p)) = map (\<lambda>x. snd (snd x)) ?as ! p" using p(1) by simp
    also have "\<dots> = ?srt ! p" by (simp only: reqs)
    finally have sx: "snd (snd x) = ?srt ! p" using p(2) by simp
    from p(1) len have "p < length inserts" by simp
    from numberEntry_footnotes [OF this, of t] show ?thesis
      unfolding fx sx .
  qed
  from nums prs srt stable mono table show ?thesis by blast
qed

theorem reference_numbers_in_offset_order_witness:
  "(1, 20, \<lparr>vAtChar = 4, messageIds = [''42'']\<rparr>)
      \<in> set (assigned (numberEntry ''Ramen is cheap here. Yes!''
           [\<lparr>vAtChar = 22, messageIds = [''7'']\<rparr>, \<lparr>vAtChar = 4, messageIds = [''42'']\<rparr>]))
   \<and> (2, 25, \<lparr>vAtChar = 22, messageIds = [''7'']\<rparr>)
      \<in> set (assigned (numberEntry ''Ramen is cheap here. Yes!''
           [\<lparr>vAtChar = 22, messageIds = [''7'']\<rparr>, \<lparr>vAtChar = 4, messageIds = [''42'']\<rparr>]))
   \<and> (20::nat) < 25 \<and> (1::nat) < 2"
proof -
  let ?a = "\<lparr>vAtChar = 22, messageIds = [''7'']\<rparr>"
  let ?b = "\<lparr>vAtChar = 4, messageIds = [''42'']\<rparr>"
  let ?as = "assigned (numberEntry ''Ramen is cheap here. Yes!'' [?a, ?b])"
  have ev: "?as = [(1, 20, ?b), (2, 25, ?a)]"
    by (simp add: numberEntry_def snapOf_def moveToSentenceEnd_def isTerminator_def
        isNewline_def newline_def skipClosers.simps isCloser_def groupsGet_def
        initialFootnoteState_def)
  have x: "(1, 20, ?b) \<in> set ?as" and y: "(2, 25, ?a) \<in> set ?as"
    unfolding ev by simp_all
  from reference_numbers_in_offset_order [of "''Ramen is cheap here. Yes!''" "[?a, ?b]"]
  have "\<forall>x\<in>set ?as. \<forall>y\<in>set ?as. fst (snd x) < fst (snd y) \<longrightarrow> fst x < fst y"
    by blast
  with x y have "fst (snd (1::nat, 20::nat, ?b)) < fst (snd (2::nat, 25::nat, ?a))
      \<longrightarrow> fst (1::nat, 20::nat, ?b) < fst (2::nat, 25::nat, ?a)"
    by blast
  with x y show ?thesis by simp
qed

section \<open>Properties of the footnote renderer\<close>

lemma validInserts_append:
  "validInserts t (xs @ ys) = validInserts t xs @ validInserts t ys"
  by (induction xs) (auto split: jsnum.splits)

lemma validInserts_invalid:
  "\<not> validOffset t (atChar bad) \<Longrightarrow> validInserts t [bad] = []"
  by (auto split: jsnum.splits)

lemma validInserts_all_invalid:
  "\<forall>i\<in>set xs. \<not> validOffset t (atChar i) \<Longrightarrow> validInserts t xs = []"
  by (induction xs) (auto split: jsnum.splits)

lemma numberEntry_Nil: "numberEntry t [] = initialFootnoteState"
  by (simp add: numberEntry_def)

text \<open>
  Claim C8. A citation request whose offset is not an integer or lies outside the text
  is left out of the rendering: the entry renders exactly as it does without that
  request, wherever the request stands in the list, and the rendering is a total
  function, so nothing is aborted. An entry none of whose requests is valid renders with
  its text unchanged and an empty footnote table.
\<close>

theorem invalid_requests_excluded:
  "(\<not> validOffset (etext e) (atChar bad) \<longrightarrow>
      applyWikipediaFootnotes (e\<lparr>citationInserts := xs @ [bad] @ ys\<rparr>)
        = applyWikipediaFootnotes (e\<lparr>citationInserts := xs @ ys\<rparr>))
   \<and> ((\<forall>i\<in>set (citationInserts e). \<not> validOffset (etext e) (atChar i)) \<longrightarrow>
        rText (applyWikipediaFootnotes e) = etext e
        \<and> rFootnotes (applyWikipediaFootnotes e) = Map.empty)"
proof (intro conjI impI)
  assume inv: "\<not> validOffset (etext e) (atChar bad)"
  have "validInserts (etext e) (xs @ [bad] @ ys) = validInserts (etext e) (xs @ ys)"
    by (simp only: validInserts_append validInserts_invalid [OF inv] append_Nil)
  then show "applyWikipediaFootnotes (e\<lparr>citationInserts := xs @ [bad] @ ys\<rparr>)
        = applyWikipediaFootnotes (e\<lparr>citationInserts := xs @ ys\<rparr>)"
    by (simp add: applyWikipediaFootnotes_def)
next
  assume "\<forall>i\<in>set (citationInserts e). \<not> validOffset (etext e) (atChar i)"
  then have "validInserts (etext e) (citationInserts e) = []"
    by (rule validInserts_all_invalid)
  then show "rText (applyWikipediaFootnotes e) = etext e"
    and "rFootnotes (applyWikipediaFootnotes e) = Map.empty"
    by (simp_all add: applyWikipediaFootnotes_def numberEntry_Nil initialFootnoteState_def)
qed

theorem invalid_requests_excluded_witness:
  "\<not> validOffset ''Ramen is cheap here.'' (JInt 99)
   \<and> applyWikipediaFootnotes
        \<lparr>entryId = ''e1'', etype = None, etext = ''Ramen is cheap here.'',
         citationInserts = [\<lparr>atChar = JInt 5, sources = [''42'']\<rparr>, \<lparr>atChar = JInt 99, sources = [''7'']\<rparr>]\<rparr>
     = applyWikipediaFootnotes
        \<lparr>entryId = ''e1'', etype = None, etext = ''Ramen is cheap here.'',
         citationInserts = [\<lparr>atChar = JInt 5, sources = [''42'']\<rparr>]\<rparr>
   \<and> rText (applyWikipediaFootnotes
        \<lparr>entryId = ''e1'', etype = None, etext = ''Ramen is cheap here.'',
         citationInserts = [\<lparr>atChar = JNotInteger, sources = [''42'']\<rparr>, \<lparr>atChar = JInt (- 1), sources = [''7'']\<rparr>]\<rparr>)
     = ''Ramen is cheap here.''"
proof -
  let ?good = "\<lparr>atChar = JInt 5, sources = [''42'']\<rparr>"
  let ?bad = "\<lparr>atChar = JInt 99, sources = [''7'']\<rparr>"
  let ?e = "\<lparr>entryId = ''e1'', etype = None, etext = ''Ramen is cheap here.'',
         citationInserts = [\<lparr>atChar = JNotInteger, sources = [''42'']\<rparr>, \<lparr>atChar = JInt (- 1), sources = [''7'']\<rparr>]\<rparr>"
  have h: "\<not> validOffset ''Ramen is cheap here.'' (JInt 99)"
    by (simp add: validOffset_def)
  from invalid_requests_excluded [of ?e ?bad "[?good]" "[]"] h
  have one: "applyWikipediaFootnotes (?e\<lparr>citationInserts := [?good] @ [?bad] @ []\<rparr>)
      = applyWikipediaFootnotes (?e\<lparr>citationInserts := [?good] @ []\<rparr>)"
    by simp
  from invalid_requests_excluded [of ?e ?bad "[]" "[]"]
  have two: "rText (applyWikipediaFootnotes ?e) = ''Ramen is cheap here.''"
    by (simp add: validOffset_def)
  from h one two show ?thesis by simp
qed

section \<open>Properties of the insertion applier\<close>

subsection \<open>The scan, the splice and the index invariant\<close>

lemma scanNextCat_spec:
  "j \<le> length ls \<Longrightarrow>
     j \<le> scanNextCat ls j \<and> scanNextCat ls j \<le> length ls
     \<and> (\<forall>i. j \<le> i \<and> i < scanNextCat ls j \<longrightarrow> \<not> startsWith (ls ! i) ''## '')
     \<and> (scanNextCat ls j = length ls \<or> startsWith (ls ! scanNextCat ls j) ''## '')"
proof (induction ls j rule: scanNextCat.induct)
  case (1 ls j)
  show ?case
  proof (cases "j < length ls")
    case False
    then have "scanNextCat ls j = length ls"
      by (subst scanNextCat.simps) simp
    with False "1.prems" show ?thesis by auto
  next
    case True
    note lt = this
    show ?thesis
    proof (cases "startsWith (ls ! j) ''## ''")
      case True
      with lt have "scanNextCat ls j = j"
        by (subst scanNextCat.simps) simp
      with True lt show ?thesis by auto
    next
      case False
      with lt have eq: "scanNextCat ls j = scanNextCat ls (j + 1)"
        by (subst scanNextCat.simps) simp
      from "1.IH" [OF lt False] lt
      have ih: "j + 1 \<le> scanNextCat ls (j + 1)" "scanNextCat ls (j + 1) \<le> length ls"
        "\<forall>i. j + 1 \<le> i \<and> i < scanNextCat ls (j + 1) \<longrightarrow> \<not> startsWith (ls ! i) ''## ''"
        "scanNextCat ls (j + 1) = length ls \<or> startsWith (ls ! scanNextCat ls (j + 1)) ''## ''"
        by simp_all
      have "\<not> startsWith (ls ! i) ''## ''" if "j \<le> i" "i < scanNextCat ls (j + 1)" for i
      proof (cases "i = j")
        case True
        with False show ?thesis by simp
      next
        case False
        with that ih(3) show ?thesis by simp
      qed
      with ih show ?thesis
        unfolding eq by auto
    qed
  qed
qed

lemma resolveCategory_keeps:
  "resolveCategory st c = (catLine, st1) \<Longrightarrow>
     messageIdToLine st1 = messageIdToLine st \<and> insertedCount st1 = insertedCount st
     \<and> warnings st1 = warnings st"
  by (auto simp: resolveCategory_def Let_def split: option.splits)

lemma applyOp_insert:
  assumes "msgIndex (opMessageId op) = Some m"
    and "messageIdToLine st (opMessageId op) = None"
    and "resolveCategory st (trim (opCategory op)) = (catLine, st1)"
    and "resolvePosition st1 catLine (opPosition op) = (insertLine, ws)"
  shows "applyOp msgIndex st op =
     st1\<lparr>newLines := spliceAt (newLines st1) insertLine (formatMessageBlock m msgIndex),
         categoryIndex := shiftFrom insertLine (categoryIndex st1),
         messageIdToLine :=
           (shiftFrom insertLine (messageIdToLine st1))(opMessageId op \<mapsto> insertLine),
         insertedCount := insertedCount st1 + 1,
         warnings := warnings st1 @ ws\<rparr>"
  using assms by (simp add: applyOp_def Let_def)

lemma resolveCategory_bound:
  "resolveCategory st c = (catLine, st1) \<Longrightarrow> categoryIndex st c = None \<Longrightarrow>
     newLines st1 = newLines st @ [[], c, []] \<and> catLine = length (newLines st) + 1"
  by (auto simp: resolveCategory_def Let_def split: option.splits)

lemma dropWhile_id: "xs = [] \<or> \<not> P (hd xs) \<Longrightarrow> dropWhile P xs = xs"
  by (cases xs) auto

lemma trim_trim: "trim (trim s) = trim s"
proof -
  define t where "t = dropWhile isWhitespace s"
  define r where "r = dropWhile isWhitespace (rev t)"
  have tr: "trim s = rev r" by (simp add: trim_def t_def r_def)
  have B: "dropWhile isWhitespace r = r"
    by (simp add: r_def)
  show ?thesis
  proof (cases "r = []")
    case True
    with tr have e: "trim s = []" by simp
    show ?thesis unfolding e by (simp add: trim_def)
  next
    case False
    have "rev t = takeWhile isWhitespace (rev t) @ r"
      by (simp add: r_def)
    then have "t = rev r @ rev (takeWhile isWhitespace (rev t))"
      by (metis rev_append rev_rev_ident)
    with False have hd: "hd (rev r) = hd t" and tne: "t \<noteq> []"
      by (metis hd_append2 rev_is_Nil_conv, metis Nil_is_append_conv rev_is_Nil_conv)
    from tne have "\<not> isWhitespace (hd t)"
      unfolding t_def by (metis hd_dropWhile)
    with hd have "dropWhile isWhitespace (rev r) = rev r"
      by (intro dropWhile_id) simp
    then have "trim (rev r) = rev r"
      by (simp add: trim_def B)
    with tr show ?thesis by simp
  qed
qed

lemma indexLines_ok:
  assumes "\<forall>c i. cat c = Some i \<longrightarrow> i < length (pre @ rest) \<and> trim ((pre @ rest) ! i) = c"
    and "\<forall>d i. mid d = Some i \<longrightarrow> i < length (pre @ rest)"
    and "indexLines rest (length pre) (cat, mid) = (cat', mid')"
  shows "(\<forall>c i. cat' c = Some i \<longrightarrow> i < length (pre @ rest) \<and> trim ((pre @ rest) ! i) = c)
       \<and> (\<forall>d i. mid' d = Some i \<longrightarrow> i < length (pre @ rest))"
  using assms
proof (induction rest arbitrary: pre cat mid)
  case Nil
  then show ?case by simp
next
  case (Cons line rest)
  define cat1 where "cat1 = (if startsWith line ''## '' then cat(trim line \<mapsto> length pre) else cat)"
  define mid1 where "mid1 = (case idMatch line of None \<Rightarrow> mid | Some d \<Rightarrow> mid(d \<mapsto> length pre))"
  have eq: "pre @ line # rest = (pre @ [line]) @ rest" by simp
  have c1: "\<forall>c i. cat1 c = Some i \<longrightarrow> i < length ((pre @ [line]) @ rest) \<and> trim (((pre @ [line]) @ rest) ! i) = c"
    using Cons.prems(1) by (auto simp: cat1_def nth_append split: if_splits)
  have m1: "\<forall>d i. mid1 d = Some i \<longrightarrow> i < length ((pre @ [line]) @ rest)"
    using Cons.prems(2) by (auto simp: mid1_def split: option.splits if_splits)
  from Cons.prems(3) have "indexLines rest (length (pre @ [line])) (cat1, mid1) = (cat', mid')"
    by (simp add: cat1_def mid1_def)
  from Cons.IH [OF c1 m1 this] show ?case
    unfolding eq .
qed

lemma indexOk_initialState: "indexOk (initialState ls)"
proof -
  obtain cat' mid' where il: "indexLines ls 0 (Map.empty, Map.empty) = (cat', mid')"
    by (cases "indexLines ls 0 (Map.empty, Map.empty)") auto
  from indexLines_ok [of Map.empty "[]" ls Map.empty cat' mid'] il
  show ?thesis
    by (simp add: indexOk_def initialState_def)
qed

lemma resolveCategory_ok:
  assumes "indexOk st" "resolveCategory st (trim c) = (catLine, st1)"
  shows "indexOk st1 \<and> categoryIndex st1 (trim c) = Some catLine
       \<and> catLine < length (newLines st1) \<and> trim (newLines st1 ! catLine) = trim c"
proof (cases "categoryIndex st (trim c)")
  case (Some i)
  with assms show ?thesis
    by (auto simp: resolveCategory_def indexOk_def)
next
  case None
  with assms(2) have st1: "st1 = st\<lparr>newLines := newLines st @ [[], trim c, []],
        categoryIndex := (categoryIndex st)(trim c \<mapsto> length (newLines st) + 1),
        logs := logs st @ [''Created category: '' @ trim c]\<rparr>"
    and cl: "catLine = length (newLines st) + 1"
    by (auto simp: resolveCategory_def Let_def)
  have "indexOk st1"
    using assms(1) unfolding indexOk_def st1
    by (auto simp: nth_append trim_trim less_Suc_eq)
  then show ?thesis
    by (simp add: st1 cl nth_append trim_trim)
qed

lemma scanNextCat_le: "scanNextCat ls j \<le> length ls"
proof (induction ls j rule: scanNextCat.induct)
  case (1 ls j)
  then show ?case
    by (subst scanNextCat.simps) auto
qed

lemma resolvePosition_le:
  assumes "indexOk st1" "catLine < length (newLines st1)"
    and "resolvePosition st1 catLine pos = (k, ws)"
  shows "k \<le> length (newLines st1)"
proof -
  have m: "i < length (newLines st1)" if "messageIdToLine st1 d = Some i" for d i
    using assms(1) that unfolding indexOk_def by blast
  have m1: "Suc i \<le> length (newLines st1)" if "messageIdToLine st1 d = Some i" for d i
    using m [OF that] by simp
  have m2: "i \<le> length (newLines st1)" if "messageIdToLine st1 d = Some i" for d i
    using m [OF that] by simp
  from assms(2,3) scanNextCat_le [of "newLines st1" "catLine + 1"] show ?thesis
    by (auto simp: resolvePosition_def Suc_le_eq dest: m m2
        split: position.splits if_splits option.splits)
qed

lemma spliceAt_nth_before: "i < k \<Longrightarrow> i < length ls \<Longrightarrow> spliceAt ls k b ! i = ls ! i"
  by (simp add: spliceAt_def nth_append)

lemma spliceAt_nth_after: "k \<le> i \<Longrightarrow> i < length ls \<Longrightarrow> spliceAt ls k b ! Suc i = ls ! i"
  by (simp add: spliceAt_def nth_append min_def Suc_diff_le)

lemma spliceAt_nth_at: "k \<le> length ls \<Longrightarrow> spliceAt ls k b ! k = b"
  by (simp add: spliceAt_def nth_append)

lemma length_spliceAt: "length (spliceAt ls k b) = Suc (length ls)"
  by (simp add: spliceAt_def)

lemma spliced_ok:
  assumes "indexOk st1" "k \<le> length (newLines st1)"
  shows "indexOk (st1\<lparr>newLines := spliceAt (newLines st1) k b,
         categoryIndex := shiftFrom k (categoryIndex st1),
         messageIdToLine := (shiftFrom k (messageIdToLine st1))(d \<mapsto> k),
         insertedCount := n, warnings := w\<rparr>)"
proof -
  let ?ls = "newLines st1"
  have c: "i < length ?ls \<and> trim (?ls ! i) = c" if "categoryIndex st1 c = Some i" for c i
    using assms(1) that unfolding indexOk_def by blast
  have m: "i < length ?ls" if "messageIdToLine st1 d = Some i" for d i
    using assms(1) that unfolding indexOk_def by blast
  have c': "j < Suc (length ?ls) \<and> trim (spliceAt ?ls k b ! j) = x"
    if "shiftFrom k (categoryIndex st1) x = Some j" for x j
  proof -
    from that obtain i where i: "categoryIndex st1 x = Some i" "j = (if i \<ge> k then i + 1 else i)"
      by (auto simp: shiftFrom_def split: option.splits)
    from c [OF i(1)] i(2) show ?thesis
      by (auto simp: spliceAt_nth_before spliceAt_nth_after)
  qed
  have m': "j < Suc (length ?ls)"
    if "((shiftFrom k (messageIdToLine st1))(d \<mapsto> k)) x = Some j" for x j
  proof (cases "x = d")
    case True
    with that assms(2) show ?thesis by simp
  next
    case False
    with that obtain i where i: "messageIdToLine st1 x = Some i" "j = (if i \<ge> k then i + 1 else i)"
      by (auto simp: shiftFrom_def split: option.splits)
    from m [OF i(1)] i(2) show ?thesis by auto
  qed
  show ?thesis
    unfolding indexOk_def using c' m' by (simp add: length_spliceAt)
qed

lemma applyOp_ok:
  assumes "indexOk st"
  shows "indexOk (applyOp msgIndex st op)"
proof (cases "msgIndex (opMessageId op)")
  case None
  with assms show ?thesis
    by (simp add: applyOp_def indexOk_def)
next
  case (Some m)
  note msg = this
  show ?thesis
  proof (cases "messageIdToLine st (opMessageId op)")
    case (Some i)
    with msg assms show ?thesis
      by (simp add: applyOp_def indexOk_def)
  next
    case None
    obtain catLine st1 where rc: "resolveCategory st (trim (opCategory op)) = (catLine, st1)"
      by (cases "resolveCategory st (trim (opCategory op))") auto
    obtain k ws where rp: "resolvePosition st1 catLine (opPosition op) = (k, ws)"
      by (cases "resolvePosition st1 catLine (opPosition op)") auto
    from resolveCategory_ok [OF assms rc] have ok1: "indexOk st1" and cl: "catLine < length (newLines st1)"
      by simp_all
    from resolvePosition_le [OF ok1 cl rp] have k: "k \<le> length (newLines st1)" .
    from msg None rc rp have "applyOp msgIndex st op =
       st1\<lparr>newLines := spliceAt (newLines st1) k (formatMessageBlock m msgIndex),
         categoryIndex := shiftFrom k (categoryIndex st1),
         messageIdToLine := (shiftFrom k (messageIdToLine st1))(opMessageId op \<mapsto> k),
         insertedCount := insertedCount st1 + 1,
         warnings := warnings st1 @ ws\<rparr>"
      by (simp add: applyOp_def Let_def)
    with spliced_ok [OF ok1 k] show ?thesis by simp
  qed
qed

lemma indexOk_foldl: "indexOk st \<Longrightarrow> indexOk (foldl (applyOp msgIndex) st ops)"
  by (induction ops arbitrary: st) (auto simp: applyOp_ok)

lemma indexOk_runOperations: "indexOk (runOperations ls ops msgIndex)"
  by (simp add: runOperations_def indexOk_foldl indexOk_initialState)

lemma inserted_lines:
  assumes "indexOk st1" "catLine < length (newLines st1)" "catLine < k" "k \<le> length (newLines st1)"
  shows "spliceAt (newLines st1) k b ! catLine = newLines st1 ! catLine
       \<and> spliceAt (newLines st1) k b ! k = b"
  using assms by (simp add: spliceAt_nth_before spliceAt_nth_at)

lemmas eval_defs = runOperations_def initialState_def applyOp_def
      resolveCategory_def resolvePosition_def startsWith_def idMatch_def isDigit_def trim_def isWhitespace_def
      spliceAt_def formatMessageBlock_def shiftFrom_def truthy_def dateOf_def dquote_def newline_def

subsection \<open>Fallbacks of the position descriptor\<close>

text \<open>
  Claim C5. In any state reached by the applier, take an operation whose block is in the
  block source and not yet anchored. With an \<open>afterId\<close> that the anchor index does not
  know, the block is spliced in at the end of the target section: at the first header
  line after the section's own header, or at the end of the document; a warning is
  printed and the result is that of the same operation with position \<open>append\<close>. With a
  \<open>beforeId\<close> that is not known, the block is spliced in directly after the section's
  header line, a warning is printed, and the result is that of position \<open>prepend\<close>. In
  both cases the operation counts as inserted and the loop goes on.
\<close>

theorem missing_anchor_falls_back:
  assumes "st = runOperations markdownLines ops msgIndex"
    and "msgIndex (opMessageId op) = Some m"
    and "messageIdToLine st (opMessageId op) = None"
    and "resolveCategory st (trim (opCategory op)) = (catLine, st1)"
  shows "(opPosition op = PosObject (Some a) b \<and> a \<noteq> [] \<and> messageIdToLine st a = None \<longrightarrow>
           (let k = scanNextCat (newLines st1) (catLine + 1)
            in newLines (applyOp msgIndex st op)
                 = spliceAt (newLines st1) k (formatMessageBlock m msgIndex)
               \<and> trim (newLines st1 ! catLine) = trim (opCategory op)
               \<and> catLine < k \<and> k \<le> length (newLines st1)
               \<and> (\<forall>i. catLine < i \<and> i < k \<longrightarrow> \<not> startsWith (newLines st1 ! i) ''## '')
               \<and> (k = length (newLines st1) \<or> startsWith (newLines st1 ! k) ''## ''))
           \<and> warnings (applyOp msgIndex st op)
               = warnings st @ [''afterId '' @ a @ '' not found, defaulting to append'']
           \<and> insertedCount (applyOp msgIndex st op) = insertedCount st + 1
           \<and> applyOp msgIndex st op
               = (applyOp msgIndex st (op\<lparr>opPosition := PosString ''append''\<rparr>))
                   \<lparr>warnings := warnings st @ [''afterId '' @ a @ '' not found, defaulting to append'']\<rparr>)
       \<and> (opPosition op = PosObject a' (Some b') \<and> \<not> truthy a' \<and> b' \<noteq> []
            \<and> messageIdToLine st b' = None \<longrightarrow>
           newLines (applyOp msgIndex st op)
             = spliceAt (newLines st1) (catLine + 1) (formatMessageBlock m msgIndex)
           \<and> trim (newLines st1 ! catLine) = trim (opCategory op)
           \<and> catLine < length (newLines st1)
           \<and> warnings (applyOp msgIndex st op)
               = warnings st @ [''beforeId '' @ b' @ '' not found, defaulting to prepend'']
           \<and> insertedCount (applyOp msgIndex st op) = insertedCount st + 1
           \<and> applyOp msgIndex st op
               = (applyOp msgIndex st (op\<lparr>opPosition := PosString ''prepend''\<rparr>))
                   \<lparr>warnings := warnings st @ [''beforeId '' @ b' @ '' not found, defaulting to prepend'']\<rparr>)"
proof (intro conjI impI)
  have ok: "indexOk st"
    unfolding assms(1) by (rule indexOk_runOperations)
  from resolveCategory_ok [OF ok assms(4)]
  have cl: "catLine < length (newLines st1)"
    and hd: "trim (newLines st1 ! catLine) = trim (opCategory op)"
    by simp_all
  note keep = resolveCategory_keeps [OF assms(4)]
  define k where "k = scanNextCat (newLines st1) (catLine + 1)"
  define blk where "blk = formatMessageBlock m msgIndex"
  from cl have "catLine + 1 \<le> length (newLines st1)" by simp
  note sc = scanNextCat_spec [OF this, folded k_def]
  have app: "applyOp msgIndex st (op\<lparr>opPosition := PosString ''append''\<rparr>) =
      st1\<lparr>newLines := spliceAt (newLines st1) k blk,
         categoryIndex := shiftFrom k (categoryIndex st1),
         messageIdToLine := (shiftFrom k (messageIdToLine st1))(opMessageId op \<mapsto> k),
         insertedCount := insertedCount st1 + 1,
         warnings := warnings st1 @ []\<rparr>"
    using applyOp_insert [of msgIndex "op\<lparr>opPosition := PosString ''append''\<rparr>" m st catLine st1 k "[]"]
      assms(2,3,4) by (simp add: resolvePosition_def k_def blk_def)
  have pre: "applyOp msgIndex st (op\<lparr>opPosition := PosString ''prepend''\<rparr>) =
      st1\<lparr>newLines := spliceAt (newLines st1) (catLine + 1) blk,
         categoryIndex := shiftFrom (catLine + 1) (categoryIndex st1),
         messageIdToLine := (shiftFrom (catLine + 1) (messageIdToLine st1))(opMessageId op \<mapsto> catLine + 1),
         insertedCount := insertedCount st1 + 1,
         warnings := warnings st1 @ []\<rparr>"
    using applyOp_insert [of msgIndex "op\<lparr>opPosition := PosString ''prepend''\<rparr>" m st catLine st1 "catLine + 1" "[]"]
      assms(2,3,4) by (simp add: resolvePosition_def blk_def)
  {
    assume h: "opPosition op = PosObject (Some a) b \<and> a \<noteq> [] \<and> messageIdToLine st a = None"
    let ?w = "''afterId '' @ a @ '' not found, defaulting to append''"
    from h keep have rp: "resolvePosition st1 catLine (opPosition op) = (k, [?w])"
      by (simp add: resolvePosition_def truthy_def k_def)
    have aft: "applyOp msgIndex st op =
        st1\<lparr>newLines := spliceAt (newLines st1) k blk,
           categoryIndex := shiftFrom k (categoryIndex st1),
           messageIdToLine := (shiftFrom k (messageIdToLine st1))(opMessageId op \<mapsto> k),
           insertedCount := insertedCount st1 + 1,
           warnings := warnings st1 @ [?w]\<rparr>"
      using applyOp_insert [of msgIndex op m st catLine st1 k "[?w]"] assms(2,3,4) rp
      by (simp add: blk_def)
    show "let k = scanNextCat (newLines st1) (catLine + 1)
            in newLines (applyOp msgIndex st op)
                 = spliceAt (newLines st1) k (formatMessageBlock m msgIndex)
               \<and> trim (newLines st1 ! catLine) = trim (opCategory op)
               \<and> catLine < k \<and> k \<le> length (newLines st1)
               \<and> (\<forall>i. catLine < i \<and> i < k \<longrightarrow> \<not> startsWith (newLines st1 ! i) ''## '')
               \<and> (k = length (newLines st1) \<or> startsWith (newLines st1 ! k) ''## '')"
      unfolding Let_def k_def [symmetric] blk_def [symmetric] aft using sc hd by auto
    show "warnings (applyOp msgIndex st op) = warnings st @ [?w]"
      unfolding aft using keep by simp
    show "insertedCount (applyOp msgIndex st op) = insertedCount st + 1"
      unfolding aft using keep by simp
    show "applyOp msgIndex st op
        = (applyOp msgIndex st (op\<lparr>opPosition := PosString ''append''\<rparr>))\<lparr>warnings := warnings st @ [?w]\<rparr>"
      unfolding aft app using keep by simp
  }
  {
    assume h: "opPosition op = PosObject a' (Some b') \<and> \<not> truthy a' \<and> b' \<noteq> []
            \<and> messageIdToLine st b' = None"
    let ?w = "''beforeId '' @ b' @ '' not found, defaulting to prepend''"
    from h keep have rp: "resolvePosition st1 catLine (opPosition op) = (catLine + 1, [?w])"
      by (simp add: resolvePosition_def truthy_def)
    have bef: "applyOp msgIndex st op =
        st1\<lparr>newLines := spliceAt (newLines st1) (catLine + 1) blk,
           categoryIndex := shiftFrom (catLine + 1) (categoryIndex st1),
           messageIdToLine := (shiftFrom (catLine + 1) (messageIdToLine st1))(opMessageId op \<mapsto> catLine + 1),
           insertedCount := insertedCount st1 + 1,
           warnings := warnings st1 @ [?w]\<rparr>"
      using applyOp_insert [of msgIndex op m st catLine st1 "catLine + 1" "[?w]"] assms(2,3,4) rp
      by (simp add: blk_def)
    show "newLines (applyOp msgIndex st op)
             = spliceAt (newLines st1) (catLine + 1) (formatMessageBlock m msgIndex)"
      unfolding bef blk_def by simp
    show "trim (newLines st1 ! catLine) = trim (opCategory op)" by (rule hd)
    show "catLine < length (newLines st1)" by (rule cl)
    show "warnings (applyOp msgIndex st op) = warnings st @ [?w]"
      unfolding bef using keep by simp
    show "insertedCount (applyOp msgIndex st op) = insertedCount st + 1"
      unfolding bef using keep by simp
    show "applyOp msgIndex st op
        = (applyOp msgIndex st (op\<lparr>opPosition := PosString ''prepend''\<rparr>))\<lparr>warnings := warnings st @ [?w]\<rparr>"
      unfolding bef pre using keep by simp
  }
qed

theorem missing_anchor_falls_back_witness:
  "newLines (applyOp (Map.empty(''7'' \<mapsto> \<lparr>msgId = ''7'', timestamp = None, author = None, content = ''yes'', replyTo = None\<rparr>))
      (runOperations [''## Food'', ''x[5]'', ''## Bar''] []
         (Map.empty(''7'' \<mapsto> \<lparr>msgId = ''7'', timestamp = None, author = None, content = ''yes'', replyTo = None\<rparr>)))
      \<lparr>opMessageId = ''7'', opCategory = ''## Food'', opPosition = PosObject (Some ''9'') None\<rparr>)
    = [''## Food'', ''x[5]'', ''[UNKNOWN-DATE] yes[7]'', ''## Bar'']
   \<and> newLines (applyOp (Map.empty(''7'' \<mapsto> \<lparr>msgId = ''7'', timestamp = None, author = None, content = ''yes'', replyTo = None\<rparr>))
      (runOperations [''## Food'', ''x[5]'', ''## Bar''] []
         (Map.empty(''7'' \<mapsto> \<lparr>msgId = ''7'', timestamp = None, author = None, content = ''yes'', replyTo = None\<rparr>)))
      \<lparr>opMessageId = ''7'', opCategory = ''## Food'', opPosition = PosObject None (Some ''9'')\<rparr>)
    = [''## Food'', ''[UNKNOWN-DATE] yes[7]'', ''x[5]'', ''## Bar'']
   \<and> warnings (applyOp (Map.empty(''7'' \<mapsto> \<lparr>msgId = ''7'', timestamp = None, author = None, content = ''yes'', replyTo = None\<rparr>))
      (runOperations [''## Food'', ''x[5]'', ''## Bar''] []
         (Map.empty(''7'' \<mapsto> \<lparr>msgId = ''7'', timestamp = None, author = None, content = ''yes'', replyTo = None\<rparr>)))
      \<lparr>opMessageId = ''7'', opCategory = ''## Food'', opPosition = PosObject None (Some ''9'')\<rparr>)
    = [''beforeId 9 not found, defaulting to prepend'']"
proof -
  let ?m = "\<lparr>msgId = ''7'', timestamp = None, author = None, content = ''yes'', replyTo = None\<rparr>"
  let ?mi = "Map.empty(''7'' \<mapsto> ?m)"
  let ?ls = "[''## Food'', ''x[5]'', ''## Bar'']"
  let ?opA = "\<lparr>opMessageId = ''7'', opCategory = ''## Food'', opPosition = PosObject (Some ''9'') None\<rparr>"
  let ?opB = "\<lparr>opMessageId = ''7'', opCategory = ''## Food'', opPosition = PosObject None (Some ''9'')\<rparr>"
  let ?st = "runOperations ?ls [] ?mi"
  let ?rc = "resolveCategory ?st ''## Food''"
  have tr: "trim (opCategory ?opA) = ''## Food''" "trim (opCategory ?opB) = ''## Food''"
    by (simp_all add: trim_def isWhitespace_def)
  have h2: "?mi (opMessageId ?opA) = Some ?m" "?mi (opMessageId ?opB) = Some ?m" by simp_all
  have h3: "messageIdToLine ?st (opMessageId ?opA) = None" "messageIdToLine ?st (opMessageId ?opB) = None"
    by (simp_all add: eval_defs)
  have h4: "resolveCategory ?st (trim (opCategory ?opA)) = (fst ?rc, snd ?rc)"
    "resolveCategory ?st (trim (opCategory ?opB)) = (fst ?rc, snd ?rc)"
    unfolding tr by simp_all
  have no9: "messageIdToLine ?st ''9'' = None"
    by (simp add: eval_defs)
  have rc: "fst ?rc = 0" "newLines (snd ?rc) = ?ls"
    by (simp_all add: eval_defs)
  have sc: "scanNextCat ?ls (Suc 0) = 2"
    by (simp add: scanNextCat.simps startsWith_def)
  have pa: "opPosition ?opA = PosObject (Some ''9'') None \<and> ''9'' \<noteq> [] \<and> messageIdToLine ?st ''9'' = None"
    using no9 by simp
  have pb: "opPosition ?opB = PosObject None (Some ''9'') \<and> \<not> truthy None \<and> ''9'' \<noteq> []
      \<and> messageIdToLine ?st ''9'' = None"
    using no9 by (simp add: truthy_def)
  from missing_anchor_falls_back [OF refl h2(1) h3(1) h4(1), of "''9''" None, unfolded Let_def] pa
  have a: "newLines (applyOp ?mi ?st ?opA)
      = spliceAt (newLines (snd ?rc)) (scanNextCat (newLines (snd ?rc)) (fst ?rc + 1)) (formatMessageBlock ?m ?mi)"
    by blast
  from missing_anchor_falls_back [OF refl h2(2) h3(2) h4(2), of _ _ None "''9''"] pb
  have b: "newLines (applyOp ?mi ?st ?opB)
      = spliceAt (newLines (snd ?rc)) (fst ?rc + 1) (formatMessageBlock ?m ?mi)"
    and w: "warnings (applyOp ?mi ?st ?opB) = warnings ?st @ [''beforeId '' @ ''9'' @ '' not found, defaulting to prepend'']"
    by blast+
  have ws: "warnings ?st = []" by (simp add: eval_defs)
  from a b w show ?thesis
    unfolding rc ws by (simp add: sc spliceAt_def formatMessageBlock_def trim_def isWhitespace_def)
qed

text \<open>
  Claim C10. In any state reached by the applier, an operation (block in the source, not
  yet anchored) whose position is a string other than \<open>append\<close> and \<open>prepend\<close>, or an
  object with neither a usable \<open>afterId\<close> nor a usable \<open>beforeId\<close>, has its block spliced in
  directly after the header line of the target section, exactly as \<open>prepend\<close> does; no
  warning is printed and the operation counts as inserted.
\<close>

theorem unknown_position_prepends:
  assumes "st = runOperations markdownLines ops msgIndex"
    and "msgIndex (opMessageId op) = Some m"
    and "messageIdToLine st (opMessageId op) = None"
    and "resolveCategory st (trim (opCategory op)) = (catLine, st1)"
    and "(\<exists>p. opPosition op = PosString p \<and> p \<noteq> ''append'' \<and> p \<noteq> ''prepend'')
         \<or> (\<exists>a b. opPosition op = PosObject a b \<and> \<not> truthy a \<and> \<not> truthy b)"
  shows "catLine < length (newLines st1)
         \<and> trim (newLines st1 ! catLine) = trim (opCategory op)
         \<and> newLines (applyOp msgIndex st op)
             = spliceAt (newLines st1) (catLine + 1) (formatMessageBlock m msgIndex)
         \<and> newLines (applyOp msgIndex st op) ! catLine = newLines st1 ! catLine
         \<and> newLines (applyOp msgIndex st op) ! (catLine + 1) = formatMessageBlock m msgIndex
         \<and> warnings (applyOp msgIndex st op) = warnings st
         \<and> insertedCount (applyOp msgIndex st op) = insertedCount st + 1
         \<and> applyOp msgIndex st op = applyOp msgIndex st (op\<lparr>opPosition := PosString ''prepend''\<rparr>)"
proof -
  have ok: "indexOk st"
    unfolding assms(1) by (rule indexOk_runOperations)
  from resolveCategory_ok [OF ok assms(4)]
  have ok1: "indexOk st1" and cl: "catLine < length (newLines st1)"
    and hd: "trim (newLines st1 ! catLine) = trim (opCategory op)"
    by simp_all
  from assms(5) have rp: "resolvePosition st1 catLine (opPosition op) = (catLine + 1, [])"
    by (auto simp: resolvePosition_def)
  have rp': "resolvePosition st1 catLine (opPosition (op\<lparr>opPosition := PosString ''prepend''\<rparr>)) = (catLine + 1, [])"
    by (simp add: resolvePosition_def)
  note keep = resolveCategory_keeps [OF assms(4)]
  have a: "applyOp msgIndex st op = st1\<lparr>newLines := spliceAt (newLines st1) (catLine + 1) (formatMessageBlock m msgIndex),
         categoryIndex := shiftFrom (catLine + 1) (categoryIndex st1),
         messageIdToLine :=
           (shiftFrom (catLine + 1) (messageIdToLine st1))(opMessageId op \<mapsto> catLine + 1),
         insertedCount := insertedCount st1 + 1,
         warnings := warnings st1 @ []\<rparr>"
    using applyOp_insert [of msgIndex op m st catLine st1 "catLine + 1" "[]"]
      assms(2,3,4) rp by simp
  have b: "applyOp msgIndex st (op\<lparr>opPosition := PosString ''prepend''\<rparr>) = st1\<lparr>newLines := spliceAt (newLines st1) (catLine + 1) (formatMessageBlock m msgIndex),
         categoryIndex := shiftFrom (catLine + 1) (categoryIndex st1),
         messageIdToLine :=
           (shiftFrom (catLine + 1) (messageIdToLine st1))(opMessageId op \<mapsto> catLine + 1),
         insertedCount := insertedCount st1 + 1,
         warnings := warnings st1 @ []\<rparr>"
    using applyOp_insert [of msgIndex "op\<lparr>opPosition := PosString ''prepend''\<rparr>" m st catLine st1 "catLine + 1" "[]"]
      assms(2,3,4) rp' by simp
  from inserted_lines [OF ok1 cl, of "catLine + 1" "formatMessageBlock m msgIndex"] cl
  have pos: "spliceAt (newLines st1) (catLine + 1) (formatMessageBlock m msgIndex) ! catLine = newLines st1 ! catLine"
    "spliceAt (newLines st1) (catLine + 1) (formatMessageBlock m msgIndex) ! (catLine + 1) = formatMessageBlock m msgIndex"
    by simp_all
  show ?thesis
    unfolding b unfolding a using keep cl hd pos by simp
qed

theorem unknown_position_prepends_witness:
  "newLines (applyOp (Map.empty(''7'' \<mapsto> \<lparr>msgId = ''7'', timestamp = None, author = None, content = ''yes'', replyTo = None\<rparr>))
      (runOperations [''## Food'', ''x[5]'', ''## Bar''] []
         (Map.empty(''7'' \<mapsto> \<lparr>msgId = ''7'', timestamp = None, author = None, content = ''yes'', replyTo = None\<rparr>)))
      \<lparr>opMessageId = ''7'', opCategory = ''## Food '', opPosition = PosString ''top''\<rparr>)
    = [''## Food'', ''[UNKNOWN-DATE] yes[7]'', ''x[5]'', ''## Bar'']"
proof -
  let ?m = "\<lparr>msgId = ''7'', timestamp = None, author = None, content = ''yes'', replyTo = None\<rparr>"
  let ?mi = "Map.empty(''7'' \<mapsto> ?m)"
  let ?ls = "[''## Food'', ''x[5]'', ''## Bar'']"
  let ?op = "\<lparr>opMessageId = ''7'', opCategory = ''## Food '', opPosition = PosString ''top''\<rparr>"
  let ?st = "runOperations ?ls [] ?mi"
  let ?rc = "resolveCategory ?st (trim (opCategory ?op))"
  have h2: "?mi (opMessageId ?op) = Some ?m" by simp
  have h3: "messageIdToLine ?st (opMessageId ?op) = None"
    by (simp add: eval_defs)
  have h4: "?rc = (fst ?rc, snd ?rc)" by simp
  have h5: "(\<exists>p. opPosition ?op = PosString p \<and> p \<noteq> ''append'' \<and> p \<noteq> ''prepend'')
         \<or> (\<exists>a b. opPosition ?op = PosObject a b \<and> \<not> truthy a \<and> \<not> truthy b)"
    by simp
  have rc: "fst ?rc = 0" "newLines (snd ?rc) = ?ls"
    by (simp_all add: eval_defs)
  from unknown_position_prepends [OF refl h2 h3 h4 h5]
  have "newLines (applyOp ?mi ?st ?op) = spliceAt (newLines (snd ?rc)) (fst ?rc + 1) (formatMessageBlock ?m ?mi)"
    by blast
  then show ?thesis
    unfolding rc by (simp add: spliceAt_def formatMessageBlock_def trim_def isWhitespace_def)
qed

subsection \<open>Section names and new sections\<close>

lemma trim_whitespace: "(\<forall>c\<in>set s. isWhitespace c) \<Longrightarrow> trim s = []"
proof -
  assume "\<forall>c\<in>set s. isWhitespace c"
  then have d: "dropWhile isWhitespace s = []"
    by (simp add: dropWhile_eq_Nil_conv)
  show ?thesis unfolding trim_def d by simp
qed

lemma trim_empty_iff: "trim s = [] \<longleftrightarrow> (\<forall>c\<in>set s. isWhitespace c)"
proof
  assume "trim s = []"
  then have "dropWhile isWhitespace (rev (dropWhile isWhitespace s)) = []"
    by (simp add: trim_def)
  then have a: "\<forall>c\<in>set (dropWhile isWhitespace s). isWhitespace c"
    by (simp add: dropWhile_eq_Nil_conv)
  have "dropWhile isWhitespace s = []"
  proof (rule ccontr)
    assume ne: "dropWhile isWhitespace s \<noteq> []"
    then have "\<not> isWhitespace (hd (dropWhile isWhitespace s))" by (rule hd_dropWhile)
    moreover from ne have "hd (dropWhile isWhitespace s) \<in> set (dropWhile isWhitespace s)" by simp
    ultimately show False using a by blast
  qed
  then show "\<forall>c\<in>set s. isWhitespace c"
    by (simp add: dropWhile_eq_Nil_conv)
qed (rule trim_whitespace)

lemma indexLines_keys:
  assumes "cat [] = None" "indexLines ls i (cat, mid) = (cat', mid')"
  shows "cat' [] = None"
  using assms
proof (induction ls arbitrary: i cat mid)
  case Nil
  then show ?case by simp
next
  case (Cons line ls)
  have ne: "trim line \<noteq> []" if "startsWith line ''## ''"
  proof
    assume "trim line = []"
    then have w: "\<forall>c\<in>set line. isWhitespace c" by (simp add: trim_empty_iff)
    from that have "line \<noteq> []"
      by (cases line) (simp_all add: startsWith_def)
    from that have "hd line = CHR ''#''"
      by (cases line) (simp_all add: startsWith_def)
    with \<open>line \<noteq> []\<close> have "CHR ''#'' \<in> set line" by (metis hd_in_set)
    with w have "isWhitespace (CHR ''#'')" by blast
    then show False by (simp add: isWhitespace_def)
  qed
  define cat1 where "cat1 = (if startsWith line ''## '' then cat(trim line \<mapsto> i) else cat)"
  have c1: "cat1 [] = None"
    using Cons.prems(1) ne by (auto simp: cat1_def)
  define mid1 where "mid1 = (case idMatch line of None \<Rightarrow> mid | Some d \<Rightarrow> mid(d \<mapsto> i))"
  from Cons.prems(2) have "indexLines ls (i + 1) (cat1, mid1) = (cat', mid')"
    by (simp add: cat1_def mid1_def)
  from Cons.IH [OF c1 this] show ?case .
qed

lemma initialState_no_blank_section: "categoryIndex (initialState ls) [] = None"
proof -
  obtain cat' mid' where il: "indexLines ls 0 (Map.empty, Map.empty) = (cat', mid')"
    by (cases "indexLines ls 0 (Map.empty, Map.empty)") auto
  from indexLines_keys [OF _ il] have "cat' [] = None" by simp
  with il show ?thesis by (simp add: initialState_def)
qed



lemma scanNextCat_new_section:
  "scanNextCat (ls @ [[], c, []]) (length ls + 2) = length ls + 3"
proof -
  have a: "scanNextCat (ls @ [[], c, []]) (length ls + 3) = length ls + 3"
    by (subst scanNextCat.simps) simp
  have n: "(ls @ [[], c, []]) ! (length ls + 2) = []"
    by (simp add: nth_append)
  have ns: "\<not> startsWith ((ls @ [[], c, []]) ! (length ls + 2)) ''## ''"
    unfolding n by (simp add: startsWith_def)
  have lt: "length ls + 2 < length (ls @ [[], c, []])" by simp
  have "scanNextCat (ls @ [[], c, []]) (length ls + 2) = scanNextCat (ls @ [[], c, []]) (length ls + 2 + 1)"
    by (subst scanNextCat.simps) (simp only: ns lt if_True if_False)
  moreover have "length ls + 2 + 1 = length ls + 3" by simp
  ultimately show ?thesis using a by (simp only:)
qed


lemma new_section_step:
  assumes "msgIndex (opMessageId op) = Some m"
    and na: "messageIdToLine s (opMessageId op) = None"
    and nc: "categoryIndex s (trim (opCategory op)) = None"
  shows "(\<exists>k. newLines (applyOp msgIndex s op)
              = spliceAt (newLines s @ [[], trim (opCategory op), []]) k (formatMessageBlock m msgIndex))
       \<and> (opPosition op = PosString ''append'' \<longrightarrow>
             newLines (applyOp msgIndex s op)
               = newLines s @ [[], trim (opCategory op), [], formatMessageBlock m msgIndex]
             \<and> warnings (applyOp msgIndex s op) = warnings s)
       \<and> insertedCount (applyOp msgIndex s op) = insertedCount s + 1"
proof -
  define c where "c = trim (opCategory op)"
  define blk where "blk = formatMessageBlock m msgIndex"
  obtain catLine st1 where rc: "resolveCategory s (trim (opCategory op)) = (catLine, st1)"
    by (cases "resolveCategory s (trim (opCategory op))") auto
  obtain k ws where rp: "resolvePosition st1 catLine (opPosition op) = (k, ws)"
    by (cases "resolvePosition st1 catLine (opPosition op)") auto
  note ins = applyOp_insert [of msgIndex op m s catLine st1 k ws, OF assms(1) na rc rp]
  note keep = resolveCategory_keeps [OF rc]
  from resolveCategory_bound [OF rc] nc
  have l1: "newLines st1 = newLines s @ [[], c, []]" and cl: "catLine = length (newLines s) + 1"
    by (simp_all add: c_def)
  have ex: "\<exists>k. newLines (applyOp msgIndex s op) = spliceAt (newLines s @ [[], c, []]) k blk"
    unfolding ins by (auto simp: l1 blk_def)
  have app: "newLines (applyOp msgIndex s op) = newLines s @ [[], c, [], blk]
      \<and> warnings (applyOp msgIndex s op) = warnings s"
    if "opPosition op = PosString ''append''"
  proof -
    from that rp have kk: "k = scanNextCat (newLines s @ [[], c, []]) (length (newLines s) + 2)"
      and ws: "ws = []"
      by (simp_all add: resolvePosition_def l1 cl)
    from kk have "k = length (newLines s) + 3"
      by (simp only: scanNextCat_new_section)
    then show ?thesis
      unfolding ins using keep ws by (simp add: l1 spliceAt_def blk_def)
  qed
  have cnt: "insertedCount (applyOp msgIndex s op) = insertedCount s + 1"
    unfolding ins using keep by simp
  from ex app cnt show ?thesis
    unfolding c_def blk_def by blast
qed

lemma initialState_Nil:
  "messageIdToLine (initialState []) x = None" "categoryIndex (initialState []) y = None"
  "newLines (initialState []) = []" "insertedCount (initialState []) = 0"
  "warnings (initialState []) = []"
  by (simp_all add: initialState_def)

lemma initialState_blank:
  "messageIdToLine (initialState [[]]) x = None" "categoryIndex (initialState [[]]) y = None"
  "newLines (initialState [[]]) = [[]]"
  by (simp_all add: initialState_def startsWith_def idMatch_def)

lemma empty_document_append:
  assumes "msgIndex (opMessageId op) = Some m" "opPosition op = PosString ''append''"
  shows "newLines (runOperations [] [op] msgIndex)
           = [[], trim (opCategory op), [], formatMessageBlock m msgIndex]"
    and "newLines (runOperations [[]] [op] msgIndex)
           = [[], [], trim (opCategory op), [], formatMessageBlock m msgIndex]"
    and "insertedCount (runOperations [] [op] msgIndex) = 1"
    and "warnings (runOperations [] [op] msgIndex) = []"
  using new_section_step [of msgIndex op m "initialState []", OF assms(1)]
    new_section_step [of msgIndex op m "initialState [[]]", OF assms(1)] assms(2)
  by (simp_all add: runOperations_def initialState_Nil initialState_blank)

text \<open>
  Claim C6, as amended. The applier has no check of the section name. For an operation
  whose section name is empty or all white space (block in the source, not yet anchored)
  the trimmed name, the empty string, is used like any other name: when no section of
  that name is recorded, three empty lines are appended (blank line, empty header, blank
  line); the block is then spliced in and counted as inserted, and the loop goes on. A
  freshly indexed document never records a section with the empty name.
\<close>

theorem blank_section_name_is_inserted:
  assumes "msgIndex (opMessageId op) = Some m"
    and "messageIdToLine st (opMessageId op) = None"
    and "\<forall>c\<in>set (opCategory op). isWhitespace c"
  shows "insertedCount (applyOp msgIndex st op) = insertedCount st + 1
       \<and> formatMessageBlock m msgIndex \<in> set (newLines (applyOp msgIndex st op))
       \<and> length (newLines (applyOp msgIndex st op))
           = length (newLines st) + (if categoryIndex st [] = None then 4 else 1)
       \<and> (categoryIndex st [] = None \<longrightarrow>
            (\<exists>k. newLines (applyOp msgIndex st op)
                   = spliceAt (newLines st @ [[], [], []]) k (formatMessageBlock m msgIndex)))
       \<and> messageIdToLine (applyOp msgIndex st op) (opMessageId op) \<noteq> None
       \<and> categoryIndex (initialState markdownLines) [] = None"
proof -
  from assms(3) have tr: "trim (opCategory op) = []" by (rule trim_whitespace)
  obtain catLine st1 where rc: "resolveCategory st (trim (opCategory op)) = (catLine, st1)"
    by (cases "resolveCategory st (trim (opCategory op))") auto
  obtain k ws where rp: "resolvePosition st1 catLine (opPosition op) = (k, ws)"
    by (cases "resolvePosition st1 catLine (opPosition op)") auto
  note ins = applyOp_insert [of msgIndex op m st catLine st1 k ws, OF assms(1,2) rc rp]
  note keep = resolveCategory_keeps [OF rc]
  have lines: "newLines st1 = (if categoryIndex st [] = None then newLines st @ [[], [], []] else newLines st)"
    using rc unfolding tr by (auto simp: resolveCategory_def Let_def split: option.splits)
  show ?thesis
    unfolding ins using keep lines initialState_no_blank_section [of markdownLines]
    by (auto simp: length_spliceAt) (auto simp: spliceAt_def)
qed


theorem blank_section_name_is_inserted_witness:
  "insertedCount (applyOp
      (Map.empty(''1'' \<mapsto> \<lparr>msgId = ''1'', timestamp = None, author = None, content = ''yes'', replyTo = None\<rparr>))
      (initialState [''## Food''])
      \<lparr>opMessageId = ''1'', opCategory = ''  '', opPosition = PosString ''append''\<rparr>) = 1
   \<and> length (newLines (applyOp
      (Map.empty(''1'' \<mapsto> \<lparr>msgId = ''1'', timestamp = None, author = None, content = ''yes'', replyTo = None\<rparr>))
      (initialState [''## Food''])
      \<lparr>opMessageId = ''1'', opCategory = ''  '', opPosition = PosString ''append''\<rparr>)) = 5"
proof -
  let ?m = "\<lparr>msgId = ''1'', timestamp = None, author = None, content = ''yes'', replyTo = None\<rparr>"
  let ?mi = "Map.empty(''1'' \<mapsto> ?m)"
  let ?op = "\<lparr>opMessageId = ''1'', opCategory = ''  '', opPosition = PosString ''append''\<rparr>"
  let ?st = "initialState [''## Food'']"
  have h1: "?mi (opMessageId ?op) = Some ?m" by simp
  have h2: "messageIdToLine ?st (opMessageId ?op) = None"
    by (simp add: initialState_def idMatch_def startsWith_def)
  have h3: "\<forall>c\<in>set (opCategory ?op). isWhitespace c"
    by (simp add: isWhitespace_def)
  have c: "categoryIndex ?st [] = None"
    by (rule initialState_no_blank_section)
  have n: "insertedCount ?st = 0" "length (newLines ?st) = 1"
    by (simp_all add: initialState_def split: prod.splits)
  from blank_section_name_is_inserted [of ?mi ?op ?m ?st, OF h1 h2 h3]
  have "insertedCount (applyOp ?mi ?st ?op) = insertedCount ?st + 1"
    and "length (newLines (applyOp ?mi ?st ?op))
           = length (newLines ?st) + (if categoryIndex ?st [] = None then 4 else 1)"
    by blast+
  then show ?thesis
    unfolding c n by simp
qed

text \<open>
  Claim C6 as the specification states it fails: on the empty document, the single
  operation with section name of two spaces is not rejected. The document gains four
  lines, the counter is 1 and nothing is reported.
\<close>

theorem blank_section_name_counterexample:
  "newLines (runOperations []
      [\<lparr>opMessageId = ''1'', opCategory = ''  '', opPosition = PosString ''append''\<rparr>]
      (Map.empty(''1'' \<mapsto> \<lparr>msgId = ''1'', timestamp = None, author = None, content = ''yes'', replyTo = None\<rparr>)))
     = [[], [], [], ''[UNKNOWN-DATE] yes[1]'']
   \<and> insertedCount (runOperations []
      [\<lparr>opMessageId = ''1'', opCategory = ''  '', opPosition = PosString ''append''\<rparr>]
      (Map.empty(''1'' \<mapsto> \<lparr>msgId = ''1'', timestamp = None, author = None, content = ''yes'', replyTo = None\<rparr>)))
     = 1
   \<and> warnings (runOperations []
      [\<lparr>opMessageId = ''1'', opCategory = ''  '', opPosition = PosString ''append''\<rparr>]
      (Map.empty(''1'' \<mapsto> \<lparr>msgId = ''1'', timestamp = None, author = None, content = ''yes'', replyTo = None\<rparr>)))
     = []"
proof -
  let ?m = "\<lparr>msgId = ''1'', timestamp = None, author = None, content = ''yes'', replyTo = None\<rparr>"
  let ?mi = "Map.empty(''1'' \<mapsto> ?m)"
  let ?op = "\<lparr>opMessageId = ''1'', opCategory = ''  '', opPosition = PosString ''append''\<rparr>"
  have h1: "?mi (opMessageId ?op) = Some ?m" by simp
  have h2: "opPosition ?op = PosString ''append''" by simp
  have tr: "trim (opCategory ?op) = []"
    by (simp add: trim_def isWhitespace_def)
  have fm: "formatMessageBlock ?m ?mi = ''[UNKNOWN-DATE] yes[1]''"
    by (simp add: formatMessageBlock_def trim_def isWhitespace_def)
  from empty_document_append(1,3,4) [of ?mi ?op ?m, OF h1 h2] show ?thesis
    unfolding tr fm by simp
qed

text \<open>
  Claim C7, as amended. When the target section is not recorded, the lines blank,
  header, blank are appended at the end of the document before the block is spliced in,
  the header line being the trimmed section name as the operation gives it; with
  position \<open>append\<close> the block follows them as the last line. So on a document of no
  lines the text becomes line break, header, two line breaks, block, with no line break
  after the block; on the one empty line that splitting the empty text gives, there is
  one more line break in front.
\<close>

theorem new_section_appended_at_end:
  assumes "msgIndex (opMessageId op) = Some m"
  shows "(messageIdToLine st (opMessageId op) = None \<and> categoryIndex st (trim (opCategory op)) = None \<longrightarrow>
            (\<exists>k. newLines (applyOp msgIndex st op)
                   = spliceAt (newLines st @ [[], trim (opCategory op), []]) k (formatMessageBlock m msgIndex))
            \<and> (opPosition op = PosString ''append'' \<longrightarrow>
                 newLines (applyOp msgIndex st op)
                   = newLines st @ [[], trim (opCategory op), [], formatMessageBlock m msgIndex]))
       \<and> (opPosition op = PosString ''append'' \<longrightarrow>
            applyOperations [] [op] msgIndex
              = [newline] @ trim (opCategory op) @ [newline, newline] @ formatMessageBlock m msgIndex
            \<and> applyOperations [[]] [op] msgIndex
              = [newline, newline] @ trim (opCategory op) @ [newline, newline] @ formatMessageBlock m msgIndex)"
proof -
  have docs: "applyOperations [] [op] msgIndex
        = [newline] @ trim (opCategory op) @ [newline, newline] @ formatMessageBlock m msgIndex
      \<and> applyOperations [[]] [op] msgIndex
        = [newline, newline] @ trim (opCategory op) @ [newline, newline] @ formatMessageBlock m msgIndex"
    if ap: "opPosition op = PosString ''append''"
    unfolding applyOperations_def empty_document_append(1,2) [of msgIndex op m, OF assms ap] by simp
  from new_section_step [of msgIndex op m st, OF assms] docs show ?thesis
    by blast
qed

theorem new_section_appended_at_end_witness:
  "applyOperations []
      [\<lparr>opMessageId = ''1'', opCategory = '' ## Food'', opPosition = PosString ''append''\<rparr>]
      (Map.empty(''1'' \<mapsto> \<lparr>msgId = ''1'', timestamp = None, author = None, content = ''A'', replyTo = None\<rparr>))
     = [newline] @ ''## Food'' @ [newline, newline] @ ''[UNKNOWN-DATE] A[1]''
   \<and> newLines (applyOp
      (Map.empty(''1'' \<mapsto> \<lparr>msgId = ''1'', timestamp = None, author = None, content = ''A'', replyTo = None\<rparr>))
      (initialState [''## Bar'', ''x[5]''])
      \<lparr>opMessageId = ''1'', opCategory = '' ## Food'', opPosition = PosString ''append''\<rparr>)
     = [''## Bar'', ''x[5]'', [], ''## Food'', [], ''[UNKNOWN-DATE] A[1]'']"
proof -
  let ?m = "\<lparr>msgId = ''1'', timestamp = None, author = None, content = ''A'', replyTo = None\<rparr>"
  let ?mi = "Map.empty(''1'' \<mapsto> ?m)"
  let ?op = "\<lparr>opMessageId = ''1'', opCategory = '' ## Food'', opPosition = PosString ''append''\<rparr>"
  let ?st = "initialState [''## Bar'', ''x[5]'']"
  have h1: "?mi (opMessageId ?op) = Some ?m" by simp
  have tr: "trim (opCategory ?op) = ''## Food''"
    by (simp add: trim_def isWhitespace_def)
  have fm: "formatMessageBlock ?m ?mi = ''[UNKNOWN-DATE] A[1]''"
    by (simp add: formatMessageBlock_def trim_def isWhitespace_def)
  have pre: "messageIdToLine ?st (opMessageId ?op) = None \<and> categoryIndex ?st (trim (opCategory ?op)) = None"
    unfolding tr by (simp add: initialState_def idMatch_def startsWith_def isDigit_def trim_def isWhitespace_def)
  have ap: "opPosition ?op = PosString ''append''" by simp
  have nl: "newLines ?st = [''## Bar'', ''x[5]'']"
    by (simp add: initialState_def split: prod.splits)
  from new_section_appended_at_end [of ?mi ?op ?m ?st, OF h1] pre ap
  have "applyOperations [] [?op] ?mi
      = [newline] @ trim (opCategory ?op) @ [newline, newline] @ formatMessageBlock ?m ?mi"
    and "newLines (applyOp ?mi ?st ?op)
      = newLines ?st @ [[], trim (opCategory ?op), [], formatMessageBlock ?m ?mi]"
    by blast+
  then show ?thesis
    unfolding tr fm nl by simp
qed

text \<open>
  Claim C7 as the specification states it fails: the text produced for the empty
  document does not end with a line break, the header is the section name as given
  (\<open>Food\<close> stays \<open>Food\<close>), and the empty text split into lines gives a second leading
  line break.
\<close>

theorem empty_document_counterexample:
  "applyOperations []
      [\<lparr>opMessageId = ''1'', opCategory = ''## Food'', opPosition = PosString ''append''\<rparr>]
      (Map.empty(''1'' \<mapsto> \<lparr>msgId = ''1'', timestamp = None, author = None, content = ''A'', replyTo = None\<rparr>))
     = [newline] @ ''## Food'' @ [newline, newline] @ ''[UNKNOWN-DATE] A[1]''
   \<and> applyOperations []
      [\<lparr>opMessageId = ''1'', opCategory = ''## Food'', opPosition = PosString ''append''\<rparr>]
      (Map.empty(''1'' \<mapsto> \<lparr>msgId = ''1'', timestamp = None, author = None, content = ''A'', replyTo = None\<rparr>))
     \<noteq> [newline] @ ''## Food'' @ [newline, newline] @ ''[UNKNOWN-DATE] A[1]'' @ [newline]
   \<and> applyOperations []
      [\<lparr>opMessageId = ''1'', opCategory = ''Food'', opPosition = PosString ''append''\<rparr>]
      (Map.empty(''1'' \<mapsto> \<lparr>msgId = ''1'', timestamp = None, author = None, content = ''A'', replyTo = None\<rparr>))
     = [newline] @ ''Food'' @ [newline, newline] @ ''[UNKNOWN-DATE] A[1]''
   \<and> applyOperations [[]]
      [\<lparr>opMessageId = ''1'', opCategory = ''## Food'', opPosition = PosString ''append''\<rparr>]
      (Map.empty(''1'' \<mapsto> \<lparr>msgId = ''1'', timestamp = None, author = None, content = ''A'', replyTo = None\<rparr>))
     = [newline, newline] @ ''## Food'' @ [newline, newline] @ ''[UNKNOWN-DATE] A[1]''"
proof -
  let ?m = "\<lparr>msgId = ''1'', timestamp = None, author = None, content = ''A'', replyTo = None\<rparr>"
  let ?mi = "Map.empty(''1'' \<mapsto> ?m)"
  let ?op = "\<lparr>opMessageId = ''1'', opCategory = ''## Food'', opPosition = PosString ''append''\<rparr>"
  let ?op2 = "\<lparr>opMessageId = ''1'', opCategory = ''Food'', opPosition = PosString ''append''\<rparr>"
  have h1: "?mi (opMessageId ?op) = Some ?m" "?mi (opMessageId ?op2) = Some ?m" by simp_all
  have h2: "opPosition ?op = PosString ''append''" "opPosition ?op2 = PosString ''append''" by simp_all
  have tr: "trim (opCategory ?op) = ''## Food''" "trim (opCategory ?op2) = ''Food''"
    by (simp_all add: trim_def isWhitespace_def)
  have fm: "formatMessageBlock ?m ?mi = ''[UNKNOWN-DATE] A[1]''"
    by (simp add: formatMessageBlock_def trim_def isWhitespace_def)
  from empty_document_append(1,2) [of ?mi ?op ?m, OF h1(1) h2(1)]
    empty_document_append(1) [of ?mi ?op2 ?m, OF h1(2) h2(2)]
  show ?thesis
    unfolding applyOperations_def tr fm by (simp add: newline_def)
qed

subsection \<open>Repeated operations\<close>

lemma resolvePosition_logs:
  "resolvePosition (st\<lparr>logs := l\<rparr>) catLine pos = resolvePosition st catLine pos"
  by (cases pos) (simp_all add: resolvePosition_def split: option.splits)

lemma nologs_fields:
  assumes "a\<lparr>logs := []\<rparr> = b\<lparr>logs := []\<rparr>"
  shows "newLines a = newLines b" "categoryIndex a = categoryIndex b"
    "messageIdToLine a = messageIdToLine b" "insertedCount a = insertedCount b"
    "warnings a = warnings b"
proof -
  have "newLines (a\<lparr>logs := []\<rparr>) = newLines (b\<lparr>logs := []\<rparr>)" by (simp only: assms)
  then show "newLines a = newLines b" by simp
  have "categoryIndex (a\<lparr>logs := []\<rparr>) = categoryIndex (b\<lparr>logs := []\<rparr>)" by (simp only: assms)
  then show "categoryIndex a = categoryIndex b" by simp
  have "messageIdToLine (a\<lparr>logs := []\<rparr>) = messageIdToLine (b\<lparr>logs := []\<rparr>)" by (simp only: assms)
  then show "messageIdToLine a = messageIdToLine b" by simp
  have "insertedCount (a\<lparr>logs := []\<rparr>) = insertedCount (b\<lparr>logs := []\<rparr>)" by (simp only: assms)
  then show "insertedCount a = insertedCount b" by simp
  have "warnings (a\<lparr>logs := []\<rparr>) = warnings (b\<lparr>logs := []\<rparr>)" by (simp only: assms)
  then show "warnings a = warnings b" by simp
qed

lemma resolveCategory_logs2:
  "\<exists>l'. resolveCategory (st\<lparr>logs := l\<rparr>) c
         = (fst (resolveCategory st c), (snd (resolveCategory st c))\<lparr>logs := l'\<rparr>)"
proof (cases "categoryIndex st c")
  case None
  then have "resolveCategory (st\<lparr>logs := l\<rparr>) c
      = (fst (resolveCategory st c),
         (snd (resolveCategory st c))\<lparr>logs := l @ [''Created category: '' @ c]\<rparr>)"
    by (simp add: resolveCategory_def Let_def)
  then show ?thesis by (rule exI)
next
  case (Some i)
  then have "resolveCategory (st\<lparr>logs := l\<rparr>) c
      = (fst (resolveCategory st c), (snd (resolveCategory st c))\<lparr>logs := l\<rparr>)"
    by (simp add: resolveCategory_def)
  then show ?thesis by (rule exI)
qed

lemma applyOp_logs:
  "(applyOp msgIndex (st\<lparr>logs := l\<rparr>) op)\<lparr>logs := []\<rparr> = (applyOp msgIndex st op)\<lparr>logs := []\<rparr>"
proof (cases "msgIndex (opMessageId op)")
  case None
  then show ?thesis by (simp add: applyOp_def)
next
  case (Some m)
  note msg = this
  show ?thesis
  proof (cases "messageIdToLine st (opMessageId op)")
    case (Some i)
    with msg show ?thesis by (simp add: applyOp_def)
  next
    case None
    define catLine where "catLine = fst (resolveCategory st (trim (opCategory op)))"
    define st1 where "st1 = snd (resolveCategory st (trim (opCategory op)))"
    have rc: "resolveCategory st (trim (opCategory op)) = (catLine, st1)"
      by (simp add: catLine_def st1_def)
    from resolveCategory_logs2 [of l st "trim (opCategory op)"]
    obtain l' where rc': "resolveCategory (st\<lparr>logs := l\<rparr>) (trim (opCategory op)) = (catLine, st1\<lparr>logs := l'\<rparr>)"
      unfolding catLine_def st1_def by blast
    obtain k ws where rp: "resolvePosition st1 catLine (opPosition op) = (k, ws)"
      by (cases "resolvePosition st1 catLine (opPosition op)") auto
    then have rp': "resolvePosition (st1\<lparr>logs := l'\<rparr>) catLine (opPosition op) = (k, ws)"
      by (simp only: resolvePosition_logs)
    have None': "messageIdToLine (st\<lparr>logs := l\<rparr>) (opMessageId op) = None"
      using None by simp
    note a = applyOp_insert [of msgIndex op m st catLine st1 k ws, OF msg None rc rp]
    note b = applyOp_insert [of msgIndex op m "st\<lparr>logs := l\<rparr>" catLine "st1\<lparr>logs := l'\<rparr>" k ws,
        OF msg None' rc' rp']
    show ?thesis
      unfolding a b by simp
  qed
qed

lemma applyOp_cong:
  assumes "a\<lparr>logs := []\<rparr> = b\<lparr>logs := []\<rparr>"
  shows "(applyOp msgIndex a op)\<lparr>logs := []\<rparr> = (applyOp msgIndex b op)\<lparr>logs := []\<rparr>"
proof -
  have a: "a = (a\<lparr>logs := []\<rparr>)\<lparr>logs := logs a\<rparr>" by simp
  have b: "b = (b\<lparr>logs := []\<rparr>)\<lparr>logs := logs b\<rparr>" by simp
  have "(applyOp msgIndex a op)\<lparr>logs := []\<rparr> = (applyOp msgIndex (a\<lparr>logs := []\<rparr>) op)\<lparr>logs := []\<rparr>"
    by (subst a) (simp only: applyOp_logs)
  also have "\<dots> = (applyOp msgIndex (b\<lparr>logs := []\<rparr>) op)\<lparr>logs := []\<rparr>"
    by (simp only: assms)
  also have "\<dots> = (applyOp msgIndex b op)\<lparr>logs := []\<rparr>"
    by (subst (2) b) (simp only: applyOp_logs)
  finally show ?thesis .
qed

lemma foldl_applyOp_cong:
  "a\<lparr>logs := []\<rparr> = b\<lparr>logs := []\<rparr> \<Longrightarrow>
     (foldl (applyOp msgIndex) a ops)\<lparr>logs := []\<rparr> = (foldl (applyOp msgIndex) b ops)\<lparr>logs := []\<rparr>"
proof (induction ops arbitrary: a b)
  case Nil
  then show ?case by simp
next
  case (Cons op ops)
  have "(applyOp msgIndex a op)\<lparr>logs := []\<rparr> = (applyOp msgIndex b op)\<lparr>logs := []\<rparr>"
    using Cons.prems by (rule applyOp_cong)
  then have "(foldl (applyOp msgIndex) (applyOp msgIndex a op) ops)\<lparr>logs := []\<rparr>
      = (foldl (applyOp msgIndex) (applyOp msgIndex b op) ops)\<lparr>logs := []\<rparr>"
    by (rule Cons.IH)
  then show ?case by (simp only: foldl_Cons)
qed

lemma applyOp_skip:
  assumes "msgIndex (opMessageId op) \<noteq> None" "messageIdToLine st (opMessageId op) \<noteq> None"
  shows "(applyOp msgIndex st op)\<lparr>logs := []\<rparr> = st\<lparr>logs := []\<rparr>"
  using assms by (auto simp: applyOp_def)

lemma applyOp_anchors:
  "messageIdToLine (applyOp msgIndex st op) d = None \<longleftrightarrow>
     messageIdToLine st d = None \<and> \<not> (d = opMessageId op \<and> msgIndex d \<noteq> None)"
proof (cases "msgIndex (opMessageId op)")
  case None
  then show ?thesis by (auto simp: applyOp_def)
next
  case (Some m)
  note msg = this
  show ?thesis
  proof (cases "messageIdToLine st (opMessageId op)")
    case (Some i)
    with msg show ?thesis by (auto simp: applyOp_def)
  next
    case None
    obtain catLine st1 where rc: "resolveCategory st (trim (opCategory op)) = (catLine, st1)"
      by (cases "resolveCategory st (trim (opCategory op))") auto
    obtain k ws where rp: "resolvePosition st1 catLine (opPosition op) = (k, ws)"
      by (cases "resolvePosition st1 catLine (opPosition op)") auto
    note ins = applyOp_insert [of msgIndex op m st catLine st1 k ws, OF msg None rc rp]
    note keep = resolveCategory_keeps [OF rc]
    have sh: "shiftFrom k (messageIdToLine st) x = None \<longleftrightarrow> messageIdToLine st x = None" for x
      by (simp add: shiftFrom_def split: option.splits)
    have "messageIdToLine (applyOp msgIndex st op) d
        = ((shiftFrom k (messageIdToLine st))(opMessageId op \<mapsto> k)) d"
      unfolding ins using keep by simp
    then show ?thesis
      using msg None sh [of d] by (cases "d = opMessageId op") simp_all
  qed
qed

lemma foldl_anchored:
  "messageIdToLine st d \<noteq> None \<Longrightarrow> messageIdToLine (foldl (applyOp msgIndex) st ops) d \<noteq> None"
proof (induction ops arbitrary: st)
  case Nil
  then show ?case by simp
next
  case (Cons op ops)
  from Cons.prems have "messageIdToLine (applyOp msgIndex st op) d \<noteq> None"
    by (simp only: applyOp_anchors) simp
  from Cons.IH [OF this] show ?case by simp
qed

lemma runOperations_append:
  "runOperations ls (xs @ ys) msgIndex = foldl (applyOp msgIndex) (runOperations ls xs msgIndex) ys"
  by (simp add: runOperations_def)

text \<open>
  Claim C1. For every starting document and every operation whose block is in the block
  source, a batch in which the operation occurs a second time (anywhere after the first)
  gives the same document text as the batch without the second occurrence: when the loop
  reaches the second occurrence the identifier is in the anchor index, so the operation
  is skipped and changes neither the lines nor the count of inserted blocks.
\<close>

theorem repeated_operation_is_skipped:
  assumes "msgIndex (opMessageId op) \<noteq> None"
  shows "applyOperations markdownLines (before @ [op] @ between @ [op] @ after) msgIndex
           = applyOperations markdownLines (before @ [op] @ between @ after) msgIndex
       \<and> newLines (runOperations markdownLines (before @ [op] @ between @ [op] @ after) msgIndex)
           = newLines (runOperations markdownLines (before @ [op] @ between @ after) msgIndex)
       \<and> insertedCount (runOperations markdownLines (before @ [op] @ between @ [op] @ after) msgIndex)
           = insertedCount (runOperations markdownLines (before @ [op] @ between @ after) msgIndex)
       \<and> messageIdToLine (runOperations markdownLines (before @ [op] @ between) msgIndex) (opMessageId op)
           \<noteq> None
       \<and> newLines (applyOp msgIndex (runOperations markdownLines (before @ [op] @ between) msgIndex) op)
           = newLines (runOperations markdownLines (before @ [op] @ between) msgIndex)
       \<and> insertedCount (applyOp msgIndex (runOperations markdownLines (before @ [op] @ between) msgIndex) op)
           = insertedCount (runOperations markdownLines (before @ [op] @ between) msgIndex)"
proof -
  define s0 where "s0 = runOperations markdownLines before msgIndex"
  define s1 where "s1 = applyOp msgIndex s0 op"
  define s2 where "s2 = foldl (applyOp msgIndex) s1 between"
  define s3 where "s3 = applyOp msgIndex s2 op"
  have r2: "runOperations markdownLines (before @ [op] @ between) msgIndex = s2"
    by (simp add: runOperations_append s0_def s1_def s2_def)
  have rOnce: "runOperations markdownLines (before @ [op] @ between @ after) msgIndex
      = foldl (applyOp msgIndex) s2 after"
    by (simp add: runOperations_append s0_def s1_def s2_def)
  have rTwice: "runOperations markdownLines (before @ [op] @ between @ [op] @ after) msgIndex
      = foldl (applyOp msgIndex) s3 after"
    by (simp add: runOperations_append s0_def s1_def s2_def s3_def)
  from assms have "messageIdToLine s1 (opMessageId op) \<noteq> None"
    unfolding s1_def by (simp only: applyOp_anchors) simp
  then have anch: "messageIdToLine s2 (opMessageId op) \<noteq> None"
    unfolding s2_def by (rule foldl_anchored)
  have skip: "s3\<lparr>logs := []\<rparr> = s2\<lparr>logs := []\<rparr>"
    unfolding s3_def using assms anch by (rule applyOp_skip)
  then have fin: "(foldl (applyOp msgIndex) s3 after)\<lparr>logs := []\<rparr>
      = (foldl (applyOp msgIndex) s2 after)\<lparr>logs := []\<rparr>"
    by (rule foldl_applyOp_cong)
  note f1 = nologs_fields(1,4) [OF fin]
  note f2 = nologs_fields(1,4) [OF skip]
  show ?thesis
    unfolding applyOperations_def rOnce rTwice r2 s3_def [symmetric]
    using f1 f2 anch by simp
qed

theorem repeated_operation_is_skipped_witness:
  "applyOperations [''## Food'']
      [\<lparr>opMessageId = ''1'', opCategory = ''## Food'', opPosition = PosString ''prepend''\<rparr>,
       \<lparr>opMessageId = ''1'', opCategory = ''## Food'', opPosition = PosString ''prepend''\<rparr>]
      (Map.empty(''1'' \<mapsto> \<lparr>msgId = ''1'', timestamp = None, author = None, content = ''A'', replyTo = None\<rparr>))
    = applyOperations [''## Food'']
      [\<lparr>opMessageId = ''1'', opCategory = ''## Food'', opPosition = PosString ''prepend''\<rparr>]
      (Map.empty(''1'' \<mapsto> \<lparr>msgId = ''1'', timestamp = None, author = None, content = ''A'', replyTo = None\<rparr>))
   \<and> applyOperations [''## Food'']
      [\<lparr>opMessageId = ''1'', opCategory = ''## Food'', opPosition = PosString ''prepend''\<rparr>]
      (Map.empty(''1'' \<mapsto> \<lparr>msgId = ''1'', timestamp = None, author = None, content = ''A'', replyTo = None\<rparr>))
    = ''## Food'' @ [newline] @ ''[UNKNOWN-DATE] A[1]''"
proof -
  let ?m = "\<lparr>msgId = ''1'', timestamp = None, author = None, content = ''A'', replyTo = None\<rparr>"
  let ?mi = "Map.empty(''1'' \<mapsto> ?m)"
  let ?op = "\<lparr>opMessageId = ''1'', opCategory = ''## Food'', opPosition = PosString ''prepend''\<rparr>"
  have h: "?mi (opMessageId ?op) \<noteq> None" by simp
  have v: "applyOperations [''## Food''] [?op] ?mi = ''## Food'' @ [newline] @ ''[UNKNOWN-DATE] A[1]''"
    by (simp add: applyOperations_def eval_defs Let_def)
  from repeated_operation_is_skipped [of ?mi ?op "[''## Food'']" "[]" "[]" "[]", OF h]
  have "applyOperations [''## Food''] [?op, ?op] ?mi = applyOperations [''## Food''] [?op] ?mi"
    by simp
  with v show ?thesis by simp
qed

subsection \<open>The reply preface\<close>

text \<open>
  Claim C9, as amended. A block with a reply back-reference is prefaced by the quoted
  line with a snippet of the referenced block's content if and only if the referenced
  block is in the block source of the batch (the message index handed to the applier);
  otherwise it is prefaced by the lighter line that names only the referenced
  identifier. Whether the referenced block is resident in the document plays no part.
\<close>

theorem reply_preface_by_block_source:
  assumes "replyTo m = Some r" "r \<noteq> []"
  shows "(\<forall>rm. msgIndex r = Some rm \<longrightarrow>
            formatMessageBlock m msgIndex
              = ''> In reply to: '' @ dquote @ trim (take 60 (content rm)) @ dquote @ [newline]
                  @ formatMessageBlock (m\<lparr>replyTo := None\<rparr>) msgIndex)
       \<and> (msgIndex r = None \<longrightarrow>
            formatMessageBlock m msgIndex
              = ''> (Reply to ID: '' @ r @ '')'' @ [newline]
                  @ formatMessageBlock (m\<lparr>replyTo := None\<rparr>) msgIndex)
       \<and> (startsWith (formatMessageBlock m msgIndex) ''> In reply to: '' \<longleftrightarrow> msgIndex r \<noteq> None)"
proof (intro conjI allI impI)
  fix rm
  assume "msgIndex r = Some rm"
  with assms show "formatMessageBlock m msgIndex
      = ''> In reply to: '' @ dquote @ trim (take 60 (content rm)) @ dquote @ [newline]
          @ formatMessageBlock (m\<lparr>replyTo := None\<rparr>) msgIndex"
    by (simp add: formatMessageBlock_def Let_def)
next
  assume "msgIndex r = None"
  with assms show "formatMessageBlock m msgIndex
      = ''> (Reply to ID: '' @ r @ '')'' @ [newline]
          @ formatMessageBlock (m\<lparr>replyTo := None\<rparr>) msgIndex"
    by (simp add: formatMessageBlock_def Let_def)
next
  show "startsWith (formatMessageBlock m msgIndex) ''> In reply to: '' \<longleftrightarrow> msgIndex r \<noteq> None"
  proof (cases "msgIndex r")
    case None
    with assms show ?thesis
      by (simp add: formatMessageBlock_def Let_def startsWith_def)
  next
    case (Some rm)
    with assms show ?thesis
      by (simp add: formatMessageBlock_def Let_def startsWith_def)
  qed
qed

theorem reply_preface_by_block_source_witness:
  "formatMessageBlock \<lparr>msgId = ''7'', timestamp = None, author = None, content = ''yes'', replyTo = Some ''5''\<rparr>
      (Map.empty(''5'' \<mapsto> \<lparr>msgId = ''5'', timestamp = None, author = None, content = ''hello'', replyTo = None\<rparr>))
     = ''> In reply to: '' @ dquote @ ''hello'' @ dquote @ [newline] @ ''[UNKNOWN-DATE] yes[7]''
   \<and> formatMessageBlock \<lparr>msgId = ''7'', timestamp = None, author = None, content = ''yes'', replyTo = Some ''5''\<rparr>
      Map.empty
     = ''> (Reply to ID: 5)'' @ [newline] @ ''[UNKNOWN-DATE] yes[7]''"
proof -
  let ?m = "\<lparr>msgId = ''7'', timestamp = None, author = None, content = ''yes'', replyTo = Some ''5''\<rparr>"
  let ?m5 = "\<lparr>msgId = ''5'', timestamp = None, author = None, content = ''hello'', replyTo = None\<rparr>"
  have h1: "replyTo ?m = Some ''5''" and h2: "''5'' \<noteq> []" by simp_all
  have base: "formatMessageBlock (?m\<lparr>replyTo := None\<rparr>) mi = ''[UNKNOWN-DATE] yes[7]''" for mi
    by (simp add: formatMessageBlock_def trim_def isWhitespace_def)
  have tr: "trim (take 60 (content ?m5)) = ''hello''"
    by (simp add: trim_def isWhitespace_def)
  from reply_preface_by_block_source [of ?m "''5''" "Map.empty(''5'' \<mapsto> ?m5)", OF h1 h2]
  have a: "formatMessageBlock ?m (Map.empty(''5'' \<mapsto> ?m5))
      = ''> In reply to: '' @ dquote @ trim (take 60 (content ?m5)) @ dquote @ [newline]
          @ formatMessageBlock (?m\<lparr>replyTo := None\<rparr>) (Map.empty(''5'' \<mapsto> ?m5))"
    by simp
  from reply_preface_by_block_source [of ?m "''5''" Map.empty, OF h1 h2]
  have b: "formatMessageBlock ?m Map.empty
      = ''> (Reply to ID: '' @ ''5'' @ '')'' @ [newline]
          @ formatMessageBlock (?m\<lparr>replyTo := None\<rparr>) Map.empty"
    by simp
  from a b show ?thesis
    unfolding tr base by simp
qed

text \<open>
  Claim C9 as the specification states it fails in both directions. Block 5 is resident
  in the document (its anchor is indexed at line 1) but absent from the block source, and
  the reply to it gets the lighter line; block 5 is in the block source but never
  resident in the document, and the reply to it gets the quoted snippet.
\<close>

theorem reply_preface_counterexample:
  "messageIdToLine (initialState [''## Food'', ''[2024-01-01] hello[5]'']) ''5'' = Some 1
   \<and> newLines (runOperations [''## Food'', ''[2024-01-01] hello[5]'']
        [\<lparr>opMessageId = ''7'', opCategory = ''## Food'', opPosition = PosString ''prepend''\<rparr>]
        (Map.empty(''7'' \<mapsto> \<lparr>msgId = ''7'', timestamp = None, author = None, content = ''yes'', replyTo = Some ''5''\<rparr>)))
     = [''## Food'', ''> (Reply to ID: 5)'' @ [newline] @ ''[UNKNOWN-DATE] yes[7]'', ''[2024-01-01] hello[5]'']
   \<and> messageIdToLine (runOperations [''## Food'']
        [\<lparr>opMessageId = ''7'', opCategory = ''## Food'', opPosition = PosString ''prepend''\<rparr>]
        (Map.empty(''5'' \<mapsto> \<lparr>msgId = ''5'', timestamp = None, author = None, content = ''hello'', replyTo = None\<rparr>,
                   ''7'' \<mapsto> \<lparr>msgId = ''7'', timestamp = None, author = None, content = ''yes'', replyTo = Some ''5''\<rparr>))) ''5''
     = None
   \<and> newLines (runOperations [''## Food'']
        [\<lparr>opMessageId = ''7'', opCategory = ''## Food'', opPosition = PosString ''prepend''\<rparr>]
        (Map.empty(''5'' \<mapsto> \<lparr>msgId = ''5'', timestamp = None, author = None, content = ''hello'', replyTo = None\<rparr>,
                   ''7'' \<mapsto> \<lparr>msgId = ''7'', timestamp = None, author = None, content = ''yes'', replyTo = Some ''5''\<rparr>)))
     = [''## Food'', ''> In reply to: '' @ dquote @ ''hello'' @ dquote @ [newline] @ ''[UNKNOWN-DATE] yes[7]'']"
  by (simp add: eval_defs Let_def)

end
